theory Spec2Isabelle
  imports Main "HOL-Library.Multiset"
begin

section \<open>random-winners: the model\<close>

text \<open>
  The program (\<^verbatim>\<open>random-winners.c\<close>) loads the non-empty lines of a text file, shuffles
  them with a Fisher-Yates loop driven by \<^verbatim>\<open>rand()\<close>, and prints the first
  \<^verbatim>\<open>num_winners\<close> of them.

  Conventions of the embedding:
  \<^item> a string is a list of bytes (\<open>char\<close>); a file is the list of its bytes, read in
    binary-transparent text mode as on POSIX systems;
  \<^item> a C array of \<^verbatim>\<open>char *\<close> is the list of the strings it points to. Where the
    source indexes an array the model checks the index, and an access outside the array,
    a division by zero or a signed overflow makes the result \<open>None\<close> (\<open>Undefined\<close> for
    the loader's store step): the behaviour of the C program is undefined there;
  \<^item> \<^verbatim>\<open>int\<close> values are \<open>int\<close>; the places where a 32-bit \<^verbatim>\<open>int\<close> could overflow
    are written out where they occur;
  \<^item> \<^verbatim>\<open>malloc\<close> and \<^verbatim>\<open>realloc\<close> may fail: \<open>allocs\<close> lists the outcomes of the
    successive allocation calls (\<open>True\<close> for success), and every call after the end of
    the list succeeds. \<^verbatim>\<open>free\<close> has no observable effect and is not modelled;
  \<^item> \<^verbatim>\<open>rand()\<close> returns a value between 0 and \<^verbatim>\<open>RAND_MAX\<close>, so a draw is a
    \<open>nat\<close>; the generator, once seeded by \<^verbatim>\<open>srand(time(NULL))\<close>, is the sequence
    \<open>rnd\<close> of the values its successive calls return. \<^verbatim>\<open>shuffle\<close> is the only caller
    and makes one call per iteration, so the call of iteration \<open>i\<close> returns \<open>rnd i\<close>;
  \<^item> the file system is a function from paths to contents, \<open>None\<close> where
    \<^verbatim>\<open>fopen\<close> fails;
  \<^item> the blocks under \<^verbatim>\<open>#ifdef DEBUG\<close> are not part of the default build and are
    not modelled.
\<close>

definition LF :: char where "LF = CHR 0x0A"
definition CR :: char where "CR = CHR 0x0D"
definition NUL :: char where "NUL = CHR 0x00"

definition MAX_LINE_LENGTH :: nat where "MAX_LINE_LENGTH = 256"
definition INITIAL_CAPACITY :: int where "INITIAL_CAPACITY = 100"
definition INT_MAX :: int where "INT_MAX = 2147483647"
definition INT_MIN :: int where "INT_MIN = - 2147483648"

subsection \<open>\<^verbatim>\<open>read_lines\<close> (lines 15-68)\<close>

text \<open>One call of \<^verbatim>\<open>malloc\<close> or \<^verbatim>\<open>realloc\<close>: its outcome and the outcomes left.\<close>

fun alloc :: "bool list \<Rightarrow> bool \<times> bool list" where
  "alloc [] = (True, [])"
| "alloc (ok # allocs) = (ok, allocs)"

text \<open>
  \<^verbatim>\<open>fgets(buffer, n, file)\<close> reads at most \<open>n - 1\<close> bytes and stops after a newline
  or at the end of the file; it returns \<^verbatim>\<open>NULL\<close> when the end of the file is reached
  before any byte is read. \<open>fgets_chars k s\<close> is the bytes read with room for \<open>k\<close> of
  them, and the rest of the file. Read errors are not modelled: the whole file can be
  read.
\<close>

fun fgets_chars :: "nat \<Rightarrow> string \<Rightarrow> string \<times> string" where
  "fgets_chars 0 s = ([], s)"
| "fgets_chars (Suc k) [] = ([], [])"
| "fgets_chars (Suc k) (c # s) =
     (if c = LF then ([c], s)
      else (case fgets_chars k s of (buffer, rest) \<Rightarrow> (c # buffer, rest)))"

definition fgets :: "nat \<Rightarrow> string \<Rightarrow> (string \<times> string) option" where
  "fgets n s = (if s = [] then None else Some (fgets_chars (n - 1) s))"

text \<open>
  The buffer holds the bytes read followed by a terminating zero byte; as a C string
  (for \<^verbatim>\<open>strlen\<close> and \<^verbatim>\<open>strcpy\<close>) it ends at its first zero byte.
\<close>

definition c_string :: "string \<Rightarrow> string" where
  "c_string buffer = takeWhile (\<lambda>c. c \<noteq> NUL) buffer"

text \<open>
  Lines 34-38, on the C string \<open>s\<close> of length \<^verbatim>\<open>len\<close> in the buffer: while the string
  is not empty and its last byte is a newline or a carriage return, overwrite that byte
  with zero and decrement \<^verbatim>\<open>len\<close>.
\<close>

function strip_newlines :: "string \<Rightarrow> string" where
  "strip_newlines s =
     (if s \<noteq> [] \<and> (last s = LF \<or> last s = CR) then strip_newlines (butlast s) else s)"
  by pat_completeness auto
termination
  by (relation "measure length") auto

declare strip_newlines.simps [simp del]

text \<open>
  Lines 45-63: store one line. \<open>lines\<close> are the \<^verbatim>\<open>*count\<close> entries stored so far, in
  an array with room for \<open>capacity\<close> pointers. The array is doubled when it is full
  (\<^verbatim>\<open>capacity *= 2\<close> overflows beyond \<open>INT_MAX\<close>), then the copy of the line is
  allocated and stored at index \<^verbatim>\<open>*count\<close>. \<open>No_Memory\<close> is the \<^verbatim>\<open>return -2\<close> of
  lines 51 and 60.
\<close>

datatype stored = Undefined | No_Memory | Stored "bool list" int "string list"

definition append_line :: "bool list \<Rightarrow> int \<Rightarrow> string list \<Rightarrow> string \<Rightarrow> stored" where
  "append_line allocs capacity lines line =
     (if \<not> int (length lines) < capacity then Undefined
      else (case alloc allocs of
              (False, allocs1) \<Rightarrow> No_Memory
            | (True, allocs1) \<Rightarrow> Stored allocs1 capacity (lines @ [line])))"

definition store_line :: "bool list \<Rightarrow> int \<Rightarrow> string list \<Rightarrow> string \<Rightarrow> stored" where
  "store_line allocs capacity lines line =
     (if int (length lines) \<ge> capacity then
        (if capacity * 2 > INT_MAX then Undefined
         else (case alloc allocs of
                 (False, allocs1) \<Rightarrow> No_Memory
               | (True, allocs1) \<Rightarrow> append_line allocs1 (capacity * 2) lines line))
      else append_line allocs capacity lines line)"

text \<open>
  The \<^verbatim>\<open>while\<close> loop of lines 32-64 on the unread part \<open>content\<close> of the file. The
  result is the return code (0, or -2 after a failed allocation) with the entries
  stored in \<^verbatim>\<open>*lines\<close> at that point.
\<close>

function read_lines_loop :: "string \<Rightarrow> bool list \<Rightarrow> int \<Rightarrow> string list \<Rightarrow> (int \<times> string list) option" where
  "read_lines_loop content allocs capacity lines =
     (case fgets MAX_LINE_LENGTH content of
        None \<Rightarrow> Some (0, lines)
      | Some (buffer, rest) \<Rightarrow>
          (let line = strip_newlines (c_string buffer) in
           if line = [] then read_lines_loop rest allocs capacity lines
           else (case store_line allocs capacity lines line of
                   Undefined \<Rightarrow> None
                 | No_Memory \<Rightarrow> Some (- 2, lines)
                 | Stored allocs1 capacity1 lines1 \<Rightarrow> read_lines_loop rest allocs1 capacity1 lines1)))"
  by pat_completeness auto
termination
proof (relation "measure (\<lambda>(content, allocs, capacity, lines). length content)")
  have le: "length (snd (fgets_chars k s)) \<le> length s" for k s
    by (induction k s rule: fgets_chars.induct) (auto split: prod.splits)
  have less: "length (snd (fgets_chars (Suc k) s)) < length s" if "s \<noteq> []" for k s
  proof (cases s)
    case Nil
    with that show ?thesis by simp
  next
    case (Cons c t)
    with le [of k t] show ?thesis by (auto split: prod.splits)
  qed
  have dec: "length rest < length content" if "fgets MAX_LINE_LENGTH content = Some (buffer, rest)"
    for content buffer rest
  proof -
    from that have "content \<noteq> []" and "fgets_chars (Suc 254) content = (buffer, rest)"
      by (auto simp: fgets_def MAX_LINE_LENGTH_def split: if_splits)
    with less [of content 254] show ?thesis by simp
  qed
  show "wf (measure (\<lambda>(content, allocs, capacity, lines). length content))" by simp
  show "((rest, allocs, capacity, lines), (content, allocs, capacity, lines))
          \<in> measure (\<lambda>(content, allocs, capacity, lines). length content)"
    if "fgets MAX_LINE_LENGTH content = Some x2" and "(buffer, rest) = x2"
    for content allocs capacity lines x2 buffer rest
    using dec that by auto
  show "((rest, allocs1, capacity1, lines1), (content, allocs, capacity, lines))
          \<in> measure (\<lambda>(content, allocs, capacity, lines). length content)"
    if "fgets MAX_LINE_LENGTH content = Some x2" and "(buffer, rest) = x2"
    for content allocs capacity lines x2 buffer rest allocs1 capacity1 lines1
    using dec that by auto
qed

declare read_lines_loop.simps [simp del]

text \<open>
  \<open>read_lines\<close>: the return code and the entries of \<^verbatim>\<open>*lines\<close> (\<^verbatim>\<open>*count\<close> is
  their number). The code is -1 when the file does not open, -2 when an allocation
  fails, 0 otherwise.
\<close>

definition read_lines :: "(string \<Rightarrow> string option) \<Rightarrow> string \<Rightarrow> bool list \<Rightarrow> (int \<times> string list) option" where
  "read_lines fs filename allocs =
     (case fs filename of
        None \<Rightarrow> Some (- 1, [])
      | Some content \<Rightarrow>
          (case alloc allocs of
             (False, allocs1) \<Rightarrow> Some (- 2, [])
           | (True, allocs1) \<Rightarrow> read_lines_loop content allocs1 INITIAL_CAPACITY []))"

subsection \<open>\<^verbatim>\<open>shuffle\<close> (lines 70-78)\<close>

text \<open>
  C's \<^verbatim>\<open>%\<close> truncates towards zero (the sign of the result is the dividend's) and is
  undefined for a zero divisor.
\<close>

definition c_rem :: "int \<Rightarrow> int \<Rightarrow> int option" where
  "c_rem a b = (if b = 0 then None else Some (sgn a * (\<bar>a\<bar> mod \<bar>b\<bar>)))"

definition in_bounds :: "'a list \<Rightarrow> int \<Rightarrow> bool" where
  "in_bounds array i = (0 \<le> i \<and> i < int (length array))"

text \<open>Line 73: \<^verbatim>\<open>int j = i + rand() % (n - i);\<close> with \<open>r\<close> the value of \<^verbatim>\<open>rand()\<close>.\<close>

definition swap_index :: "int \<Rightarrow> int \<Rightarrow> int \<Rightarrow> int option" where
  "swap_index i n r = (case c_rem r (n - i) of None \<Rightarrow> None | Some m \<Rightarrow> Some (i + m))"

text \<open>
  The \<^verbatim>\<open>for\<close> loop of lines 72-77, from the index \<open>i\<close> on: the three assignments
  of the swap are the three bindings of the \<open>let\<close>. The loop condition computes
  \<^verbatim>\<open>n - 1\<close>, which overflows when \<open>n\<close> is \<open>INT_MIN\<close>; no other operation of the
  loop can overflow, since \<open>0 \<le> i \<le> j \<le> n - 1\<close> inside it.
\<close>

function shuffle_loop :: "(nat \<Rightarrow> nat) \<Rightarrow> int \<Rightarrow> int \<Rightarrow> 'a list \<Rightarrow> 'a list option" where
  "shuffle_loop rnd n i array =
     (if n - 1 < INT_MIN then None
      else if i < n - 1 then
        (case swap_index i n (int (rnd (nat i))) of
           None \<Rightarrow> None
         | Some j \<Rightarrow>
             if in_bounds array i \<and> in_bounds array j then
               (let temp = array ! nat i;
                    array1 = array[nat i := array ! nat j];
                    array2 = array1[nat j := temp]
                in shuffle_loop rnd n (i + 1) array2)
             else None)
      else Some array)"
  by pat_completeness auto
termination
  by (relation "measure (\<lambda>(rnd, n, i, array). nat (n - i))") auto

declare shuffle_loop.simps [simp del]

definition shuffle :: "(nat \<Rightarrow> nat) \<Rightarrow> 'a list \<Rightarrow> int \<Rightarrow> 'a list option" where
  "shuffle rnd array n = shuffle_loop rnd n 0 array"



subsection \<open>\<^verbatim>\<open>atoi\<close> and \<^verbatim>\<open>printf\<close>\<close>

text \<open>
  \<^verbatim>\<open>atoi\<close> is not part of the source. It is modelled as the GNU C library defines it,
  \<^verbatim>\<open>(int) strtol(s, NULL, 10)\<close> with a 64-bit \<^verbatim>\<open>long\<close>: leading white space is skipped,
  an optional sign is read, then the longest run of decimal digits; with no digit the
  result is 0. \<^verbatim>\<open>strtol\<close> returns \<open>LONG_MAX\<close> or \<open>LONG_MIN\<close> for a number outside
  \<^verbatim>\<open>long\<close>, and the conversion to \<^verbatim>\<open>int\<close> keeps the low 32 bits of the result in
  two's complement. (The C standard leaves \<^verbatim>\<open>atoi\<close> undefined for a number outside
  \<^verbatim>\<open>int\<close>.)
\<close>

definition isspace :: "char \<Rightarrow> bool" where
  "isspace c = (c \<in> {CHR '' '', CHR 0x09, CHR 0x0A, CHR 0x0B, CHR 0x0C, CHR 0x0D})"

definition isdigit :: "char \<Rightarrow> bool" where
  "isdigit c = (c \<in> set ''0123456789'')"

definition digit_value :: "char \<Rightarrow> int" where
  "digit_value c = int (of_char c) - 48"

fun parse_digits :: "int \<Rightarrow> string \<Rightarrow> int" where
  "parse_digits acc [] = acc"
| "parse_digits acc (c # s) = (if isdigit c then parse_digits (acc * 10 + digit_value c) s else acc)"

definition skip_sign :: "string \<Rightarrow> bool \<times> string" where
  "skip_sign s =
     (case s of
        [] \<Rightarrow> (False, [])
      | c # t \<Rightarrow> if c = CHR ''-'' then (True, t) else if c = CHR ''+'' then (False, t) else (False, s))"

definition LONG_MAX :: int where "LONG_MAX = 9223372036854775807"
definition LONG_MIN :: int where "LONG_MIN = - 9223372036854775808"

definition strtol :: "string \<Rightarrow> int" where
  "strtol s =
     (case skip_sign (dropWhile isspace s) of
        (negative, digits) \<Rightarrow>
          (let v = parse_digits 0 digits;
               r = (if negative then - v else v)
           in if r < LONG_MIN then LONG_MIN else if LONG_MAX < r then LONG_MAX else r))"

definition long_to_int :: "int \<Rightarrow> int" where
  "long_to_int x = (x + 2147483648) mod 4294967296 - 2147483648"

definition atoi :: "string \<Rightarrow> int" where
  "atoi s = long_to_int (strtol s)"

text \<open>The conversion \<^verbatim>\<open>%d\<close> of \<^verbatim>\<open>printf\<close>.\<close>

definition digit_char :: "nat \<Rightarrow> char" where
  "digit_char d = ''0123456789'' ! d"

function decimal :: "nat \<Rightarrow> string" where
  "decimal n = (if n < 10 then [digit_char n] else decimal (n div 10) @ [digit_char (n mod 10)])"
  by pat_completeness auto
termination
  by (relation "measure id") auto

declare decimal.simps [simp del]

definition printf_d :: "int \<Rightarrow> string" where
  "printf_d i = (if i < 0 then CHR ''-'' # decimal (nat (- i)) else decimal (nat i))"

subsection \<open>\<^verbatim>\<open>print_usage\<close> and \<^verbatim>\<open>main\<close> (lines 88-181)\<close>

definition print_usage :: "string \<Rightarrow> string" where
  "print_usage program_name =
     ''Usage: '' @ program_name @ '' <input_file> <number_of_winners>'' @ [LF] @
     [LF] @
     ''Arguments:'' @ [LF] @
     ''  input_file        Path to text file with one nickname per line'' @ [LF] @
     ''  number_of_winners Number of random winners to select'' @ [LF] @
     [LF] @
     ''Example:'' @ [LF] @
     ''  '' @ program_name @ '' participants.txt 3'' @ [LF]"

text \<open>The texts written to standard error (lines 111, 121, 126, 132 and 139-141).\<close>

definition msg_not_positive :: string where
  "msg_not_positive = ''Error: Number of winners must be a positive integer.'' @ [LF]"

definition msg_open_failed :: "string \<Rightarrow> string" where
  "msg_open_failed filename =
     ''Error: Could not open file '' @ [CHR 0x27] @ filename @ [CHR 0x27] @ ''. Please check the file path.'' @ [LF]"

definition msg_no_memory :: string where
  "msg_no_memory = ''Error: Memory allocation failed.'' @ [LF]"

definition msg_no_nicknames :: "string \<Rightarrow> string" where
  "msg_no_nicknames filename =
     ''Error: The file '' @ [CHR 0x27] @ filename @ [CHR 0x27] @ '' contains no valid nicknames.'' @ [LF]"

definition msg_too_many :: "int \<Rightarrow> int \<Rightarrow> string" where
  "msg_too_many num_winners line_count =
     ''Error: Cannot select '' @ printf_d num_winners @ '' winners from only '' @ printf_d line_count @ '' participants.'' @ [LF] @
     ''Please reduce the number of winners or add more participants to the file.'' @ [LF]"

text \<open>
  The text written to standard output on success (lines 171-175). The first nine
  bytes of the header are those of the source file.
\<close>

definition header :: "int \<Rightarrow> int \<Rightarrow> string" where
  "header num_winners line_count =
     [CHR 0xC3, CHR 0xB0, CHR 0xC5, CHR 0xB8, CHR 0xC5, CHR 0xBD, CHR 0xE2, CHR 0x80, CHR 0xB0] @
     '' Randomly selected '' @ printf_d num_winners @ '' winner(s) from '' @ printf_d line_count @ '' participants:'' @ [LF, LF]"

definition winner_line :: "int \<Rightarrow> string \<Rightarrow> string" where
  "winner_line rank name = ''  '' @ printf_d rank @ ''. '' @ name @ [LF]"

text \<open>The loop of lines 172-174; \<open>out\<close> is what standard output holds so far.\<close>

function print_winners :: "string list \<Rightarrow> int \<Rightarrow> int \<Rightarrow> string \<Rightarrow> string option" where
  "print_winners lines num_winners i out =
     (if i < num_winners then
        (if in_bounds lines i then
           print_winners lines num_winners (i + 1) (out @ winner_line (i + 1) (lines ! nat i))
         else None)
      else Some out)"
  by pat_completeness auto
termination
  by (relation "measure (\<lambda>(lines, num_winners, i, out). nat (num_winners - i))") auto

declare print_winners.simps [simp del]

text \<open>
  A run of the program: its exit code and what it wrote to standard output and to
  standard error (the writes themselves do not fail). \<open>argv\<close> are the \<^verbatim>\<open>argc\<close>
  arguments, the program name first; with no argument at all \<^verbatim>\<open>argv[0]\<close> is a null
  pointer, which \<^verbatim>\<open>print_usage\<close> hands to \<^verbatim>\<open>%s\<close>: the run is undefined.
\<close>

record run =
  exit_code :: int
  stdout :: string
  stderr :: string

definition failure :: "string \<Rightarrow> run" where
  "failure message = \<lparr>exit_code = 1, stdout = [], stderr = message\<rparr>"

definition main :: "string list \<Rightarrow> (string \<Rightarrow> string option) \<Rightarrow> bool list \<Rightarrow> (nat \<Rightarrow> nat) \<Rightarrow> run option" where
  "main argv fs allocs rnd =
     (if argv = [] then None
      else if length argv \<noteq> 3 then
        Some \<lparr>exit_code = 1, stdout = print_usage (argv ! 0), stderr = []\<rparr>
      else
        (let filename = argv ! 1;
             num_winners = atoi (argv ! 2)
         in
           if num_winners \<le> 0 then Some (failure msg_not_positive)
           else
             (case read_lines fs filename allocs of
                None \<Rightarrow> None
              | Some (result, lines) \<Rightarrow>
                  (let line_count = int (length lines) in
                   if result = - 1 then Some (failure (msg_open_failed filename))
                   else if result = - 2 then Some (failure msg_no_memory)
                   else if line_count = 0 then Some (failure (msg_no_nicknames filename))
                   else if num_winners > line_count then
                     Some (failure (msg_too_many num_winners line_count))
                   else
                     (case shuffle rnd lines line_count of
                        None \<Rightarrow> None
                      | Some shuffled \<Rightarrow>
                          (case print_winners shuffled num_winners 0 (header num_winners line_count) of
                             None \<Rightarrow> None
                           | Some out \<Rightarrow>
                               Some \<lparr>exit_code = 0, stdout = out @ [LF], stderr = []\<rparr>))))))"

text \<open>
  The run of the success path in closed form: the header, one line per winner with
  its rank from 1, and an empty line (\<open>main_run\<close> below relates it to \<open>print_winners\<close>).
\<close>

definition success :: "int \<Rightarrow> string list \<Rightarrow> run" where
  "success num_winners shuffled =
     \<lparr>exit_code = 0,
      stdout = header num_winners (int (length shuffled))
        @ concat (map (\<lambda>j. winner_line (int j + 1) (shuffled ! j)) [0..<nat num_winners]) @ [LF],
      stderr = []\<rparr>"

subsection \<open>The early-stopping variant the specification permits\<close>

text \<open>
  The specification allows the routine to stop once the first \<open>N\<close> positions are final:
  the same loop body, run for \<open>i\<close> from 0 to \<open>N - 1\<close>. This definition follows the
  specification's words; it is not in the source, and is only compared with
  \<open>shuffle\<close>.
\<close>

function shuffle_first_loop :: "(nat \<Rightarrow> nat) \<Rightarrow> int \<Rightarrow> int \<Rightarrow> int \<Rightarrow> 'a list \<Rightarrow> 'a list option" where
  "shuffle_first_loop rnd n N i array =
     (if i < N then
        (case swap_index i n (int (rnd (nat i))) of
           None \<Rightarrow> None
         | Some j \<Rightarrow>
             if in_bounds array i \<and> in_bounds array j then
               (let temp = array ! nat i;
                    array1 = array[nat i := array ! nat j];
                    array2 = array1[nat j := temp]
                in shuffle_first_loop rnd n N (i + 1) array2)
             else None)
      else Some array)"
  by pat_completeness auto
termination
  by (relation "measure (\<lambda>(rnd, n, N, i, array). nat (N - i))") auto

declare shuffle_first_loop.simps [simp del]

definition shuffle_first :: "(nat \<Rightarrow> nat) \<Rightarrow> 'a list \<Rightarrow> int \<Rightarrow> int \<Rightarrow> 'a list option" where
  "shuffle_first rnd array n N = shuffle_first_loop rnd n N 0 array"


subsection \<open>The loader as the specification words it\<close>

text \<open>
  The specification's loader "reads the file line by line; strips trailing
  newline/carriage-return characters; discards lines that become empty after stripping;
  preserves original order and duplicates". These definitions follow those words and
  are only compared with \<open>read_lines\<close>. The lines of a file are the runs of bytes that
  its newlines end, and the bytes after the last newline when there are any.
\<close>

fun file_lines :: "string \<Rightarrow> string list" where
  "file_lines [] = []"
| "file_lines (c # s) =
     (if c = LF then [] # file_lines s
      else (case file_lines s of [] \<Rightarrow> [[c]] | l # ls \<Rightarrow> (c # l) # ls))"

definition strip_trailing :: "string \<Rightarrow> string" where
  "strip_trailing l = rev (dropWhile (\<lambda>c. c = LF \<or> c = CR) (rev l))"

definition spec_load :: "string \<Rightarrow> string list" where
  "spec_load content = filter (\<lambda>l. l \<noteq> []) (map strip_trailing (file_lines content))"

subsection \<open>The loop as a sequence of swaps\<close>

text \<open>
  For the proofs, the effect of the loop is described on \<open>nat\<close> indices: \<open>swaps i js xs\<close>
  exchanges positions \<open>i\<close> and \<open>j\<close> for the successive \<open>j\<close> of \<open>js\<close>, \<open>i\<close> counting
  up; \<open>draws rnd L i k\<close> are the \<open>k\<close> swap indices the loop computes from index \<open>i\<close>
  on, for an array of \<open>L\<close> elements.
\<close>

fun swaps :: "nat \<Rightarrow> nat list \<Rightarrow> 'a list \<Rightarrow> 'a list" where
  "swaps i [] xs = xs"
| "swaps i (j # js) xs = swaps (Suc i) js (xs[i := xs ! j, j := xs ! i])"

fun valid_swaps :: "nat \<Rightarrow> nat \<Rightarrow> nat list \<Rightarrow> bool" where
  "valid_swaps L i [] = True"
| "valid_swaps L i (j # js) = (i \<le> j \<and> j < L \<and> valid_swaps L (Suc i) js)"

definition draw :: "(nat \<Rightarrow> nat) \<Rightarrow> nat \<Rightarrow> nat \<Rightarrow> nat" where
  "draw rnd L i = i + rnd i mod (L - i)"

primrec draws :: "(nat \<Rightarrow> nat) \<Rightarrow> nat \<Rightarrow> nat \<Rightarrow> nat \<Rightarrow> nat list" where
  "draws rnd L i 0 = []"
| "draws rnd L i (Suc k) = draw rnd L i # draws rnd L (Suc i) k"


subsection \<open>Counting the draws\<close>

text \<open>
  The source does not fix \<^verbatim>\<open>RAND_MAX\<close>, the largest value of \<^verbatim>\<open>rand()\<close>; it is the
  parameter \<open>rand_max\<close> here (2147483647 in the GNU C library, at least 32767 in
  every C library). \<open>draws_to rand_max i n j\<close> is the number of values of
  \<^verbatim>\<open>rand()\<close> for which line 73 computes the swap index \<open>j\<close> at the index \<open>i\<close>;
  \<open>winners_count rand_max xs N ys\<close> is the number of sequences of values of the
  \<open>length xs - 1\<close> calls of \<^verbatim>\<open>rand()\<close> after which the first \<open>N\<close> elements are \<open>ys\<close>.
  A uniform generator gives every value, and every sequence of values, the same weight.
\<close>

definition draws_to :: "nat \<Rightarrow> int \<Rightarrow> int \<Rightarrow> int \<Rightarrow> nat" where
  "draws_to rand_max i n j = length (filter (\<lambda>r. swap_index i n (int r) = Some j) [0..<Suc rand_max])"

definition winners_count :: "nat \<Rightarrow> 'a list \<Rightarrow> nat \<Rightarrow> 'a list \<Rightarrow> nat" where
  "winners_count rand_max xs N ys =
     length (filter (\<lambda>rs. map_option (take N) (shuffle (\<lambda>i. rs ! i) xs (int (length xs))) = Some ys)
       (List.n_lists (length xs - 1) [0..<Suc rand_max]))"

subsection \<open>Predicates used in the proofs about the loader\<close>

text \<open>
  \<open>entry_ok\<close> is what every stored entry satisfies; \<open>short_lines\<close> describes the files
  on which one \<^verbatim>\<open>fgets\<close> call reads one whole line: no zero byte, and every line
  shorter than the buffer.
\<close>

definition entry_ok :: "string \<Rightarrow> bool" where
  "entry_ok l = (l \<noteq> [] \<and> LF \<notin> set l \<and> NUL \<notin> set l \<and> last l \<noteq> CR)"

definition short_lines :: "string \<Rightarrow> bool" where
  "short_lines content = (NUL \<notin> set content \<and> (\<forall>l\<in>set (file_lines content). length l < MAX_LINE_LENGTH))"


subsection \<open>Counting the allocations of a load\<close>

text \<open>
  \<open>doublings capacity k\<close> is the number of times lines 46-53 double an array with
  room for \<open>capacity\<close> pointers while entries are stored up to the \<open>k\<close>-th: once each
  time the number of entries has reached the capacity and one more is stored.
  \<open>allocations k\<close> is the number of allocation calls of a load that stores \<open>k\<close>
  entries: the array (line 24), one copy for each entry (line 57), and the doublings
  (line 48).
\<close>

function doublings :: "int \<Rightarrow> nat \<Rightarrow> nat" where
  "doublings capacity k =
     (if 0 < capacity \<and> capacity < int k then Suc (doublings (capacity * 2) k) else 0)"
  by pat_completeness auto
termination
  by (relation "measure (\<lambda>(capacity, k). nat (int k - capacity))") auto

declare doublings.simps [simp del]

definition allocations :: "nat \<Rightarrow> nat" where
  "allocations k = Suc (k + doublings INITIAL_CAPACITY k)"
section \<open>Properties of \<^verbatim>\<open>shuffle\<close>\<close>

lemma draw_bounds: "i < L \<Longrightarrow> i \<le> draw rnd L i \<and> draw rnd L i < L"
proof -
  assume "i < L"
  then have "rnd i mod (L - i) < L - i" by simp
  then show ?thesis unfolding draw_def by linarith
qed

lemma length_draws [simp]: "length (draws rnd L i k) = k"
  by (induction k arbitrary: i) simp_all

lemma valid_swaps_draws: "i + k \<le> L \<Longrightarrow> valid_swaps L i (draws rnd L i k)"
  by (induction k arbitrary: i) (simp_all add: draw_bounds)

lemma valid_swaps_mono: "valid_swaps L i js \<Longrightarrow> L \<le> M \<Longrightarrow> valid_swaps M i js"
  by (induction js arbitrary: i) auto

lemma length_swaps [simp]: "length (swaps i js xs) = length xs"
  by (induction js arbitrary: i xs) simp_all

lemma swaps_append: "swaps i (js @ ks) xs = swaps (i + length js) ks (swaps i js xs)"
  by (induction js arbitrary: i xs) simp_all

lemma draws_add: "draws rnd L i (k + m) = draws rnd L i k @ draws rnd L (i + k) m"
  by (induction k arbitrary: i) simp_all

lemma mset_swaps:
  "valid_swaps (length xs) i js \<Longrightarrow> mset (swaps i js xs) = mset xs"
proof (induction js arbitrary: i xs)
  case Nil
  then show ?case by simp
next
  case (Cons j js)
  then have "mset (xs[i := xs ! j, j := xs ! i]) = mset xs"
    by (simp add: mset_swap)
  with Cons show ?case by simp
qed

lemma swaps_nth_below:
  "valid_swaps L i js \<Longrightarrow> p < i \<Longrightarrow> swaps i js xs ! p = xs ! p"
  by (induction js arbitrary: i xs) auto

lemma swaps_take_below:
  "valid_swaps L i js \<Longrightarrow> N \<le> i \<Longrightarrow> take N (swaps i js xs) = take N xs"
  by (simp add: list_eq_iff_nth_eq swaps_nth_below)

lemma swaps_map:
  "valid_swaps (length xs) i js \<Longrightarrow> swaps i js (map f xs) = map f (swaps i js xs)"
proof (induction js arbitrary: i xs)
  case Nil
  then show ?case by simp
next
  case (Cons j js)
  then have "(map f xs)[i := map f xs ! j, j := map f xs ! i] = map f (xs[i := xs ! j, j := xs ! i])"
    by (simp add: map_update)
  with Cons show ?case by simp
qed

lemma swap_index_draw:
  "i < L \<Longrightarrow> swap_index (int i) (int L) (int r) = Some (int (i + r mod (L - i)))"
  by (simp add: swap_index_def c_rem_def sgn_if zmod_int of_nat_diff)

lemma nat_int_add: "nat (int a + int b) = a + b"
  by simp

lemma shuffle_loop_step:
  assumes "Suc i < L" and "L \<le> length xs"
  shows "shuffle_loop rnd (int L) (int i) xs
       = shuffle_loop rnd (int L) (int (Suc i)) (xs[i := xs ! draw rnd L i, draw rnd L i := xs ! i])"
proof -
  have b: "draw rnd L i < length xs" using draw_bounds [of i L rnd] assms by linarith
  have c: "int i < int L - 1" "i < length xs" using assms by linarith+
  have d: "swap_index (int i) (int L) (int (rnd i)) = Some (int (draw rnd L i))"
    using assms by (simp add: swap_index_draw draw_def)
  have e: "int i + 1 = int (Suc i)" by simp
  show ?thesis
    by (subst shuffle_loop.simps [of rnd "int L" "int i"])
       (simp add: c d b in_bounds_def add.commute INT_MIN_def)
qed

lemma shuffle_loop_exit: "L \<le> Suc i \<Longrightarrow> shuffle_loop rnd (int L) (int i) xs = Some xs"
  by (subst shuffle_loop.simps) (simp add: INT_MIN_def)

lemma shuffle_loop_swaps:
  "L \<le> length xs \<Longrightarrow> i + k = L - 1 \<Longrightarrow>
   shuffle_loop rnd (int L) (int i) xs = Some (swaps i (draws rnd L i k) xs)"
proof (induction k arbitrary: i xs)
  case 0
  then show ?case by (simp add: shuffle_loop_exit)
next
  case (Suc k)
  let ?ys = "xs[i := xs ! draw rnd L i, draw rnd L i := xs ! i]"
  have "shuffle_loop rnd (int L) (int i) xs = shuffle_loop rnd (int L) (int (Suc i)) ?ys"
    using Suc.prems by (intro shuffle_loop_step) linarith+
  also have "\<dots> = Some (swaps (Suc i) (draws rnd L (Suc i) k) ?ys)"
    using Suc.prems by (intro Suc.IH) simp_all
  finally show ?case by simp
qed

lemma shuffle_swaps:
  "L \<le> length xs \<Longrightarrow> shuffle rnd xs (int L) = Some (swaps 0 (draws rnd L 0 (L - 1)) xs)"
  unfolding shuffle_def using shuffle_loop_swaps [of L xs 0 "L - 1" rnd] by simp


lemma shuffle_first_loop_step:
  assumes "i < N" and "i < L" and "L \<le> length xs"
  shows "shuffle_first_loop rnd (int L) (int N) (int i) xs
       = shuffle_first_loop rnd (int L) (int N) (int (Suc i)) (xs[i := xs ! draw rnd L i, draw rnd L i := xs ! i])"
proof -
  have b: "draw rnd L i < length xs" using draw_bounds [of i L rnd] assms by linarith
  have c: "i < length xs" using assms by linarith
  have d: "swap_index (int i) (int L) (int (rnd i)) = Some (int (draw rnd L i))"
    using assms by (simp add: swap_index_draw draw_def)
  show ?thesis
    by (subst shuffle_first_loop.simps [of rnd "int L" "int N" "int i"])
       (simp add: assms c d b in_bounds_def add.commute)
qed

lemma shuffle_first_loop_swaps:
  "L \<le> length xs \<Longrightarrow> N \<le> L \<Longrightarrow> i + k = N \<Longrightarrow>
   shuffle_first_loop rnd (int L) (int N) (int i) xs = Some (swaps i (draws rnd L i k) xs)"
proof (induction k arbitrary: i xs)
  case 0
  then show ?case by (subst shuffle_first_loop.simps) simp
next
  case (Suc k)
  let ?ys = "xs[i := xs ! draw rnd L i, draw rnd L i := xs ! i]"
  have "shuffle_first_loop rnd (int L) (int N) (int i) xs
      = shuffle_first_loop rnd (int L) (int N) (int (Suc i)) ?ys"
    using Suc.prems by (intro shuffle_first_loop_step) linarith+
  also have "\<dots> = Some (swaps (Suc i) (draws rnd L (Suc i) k) ?ys)"
    using Suc.prems by (intro Suc.IH) simp_all
  finally show ?case by simp
qed

lemma shuffle_first_swaps:
  "L \<le> length xs \<Longrightarrow> N \<le> L \<Longrightarrow>
   shuffle_first rnd xs (int L) (int N) = Some (swaps 0 (draws rnd L 0 N) xs)"
  unfolding shuffle_first_def using shuffle_first_loop_swaps [of L xs N 0 N rnd] by simp

lemma take_swaps_draws:
  assumes "N \<le> k" and "k \<le> L"
  shows "take N (swaps 0 (draws rnd L 0 k) xs) = take N (swaps 0 (draws rnd L 0 N) xs)"
proof -
  have "draws rnd L 0 k = draws rnd L 0 N @ draws rnd L N (k - N)"
    using assms draws_add [of rnd L 0 N "k - N"] by simp
  then have "swaps 0 (draws rnd L 0 k) xs
      = swaps N (draws rnd L N (k - N)) (swaps 0 (draws rnd L 0 N) xs)"
    by (simp add: swaps_append)
  moreover have "valid_swaps L N (draws rnd L N (k - N))"
    using assms by (intro valid_swaps_draws) simp
  ultimately show ?thesis by (simp add: swaps_take_below)
qed

lemma swaps_last_draw: "0 < L \<Longrightarrow> swaps (L - 1) (draws rnd L (L - 1) 1) xs = xs"
  by (simp add: draw_def)

lemma swaps_indices:
  assumes "valid_swaps (length xs) i js"
  shows "swaps i js xs = map (\<lambda>p. xs ! p) (swaps i js [0..<length xs])"
proof -
  have "swaps i js (map (\<lambda>p. xs ! p) [0..<length xs]) = map (\<lambda>p. xs ! p) (swaps i js [0..<length xs])"
    using assms by (intro swaps_map) simp
  then show ?thesis by (simp add: map_nth)
qed


text \<open>
  Claim C1. For a participant list of length \<open>L \<ge> 1\<close> and a winner count \<open>N\<close>
  with \<open>1 \<le> N \<le> L\<close>, and for every sequence of random draws, \<open>shuffle\<close> returns
  (no access leaves the array) an array that is a permutation of the one it was given,
  and its first \<open>N\<close> elements are the entries of \<open>N\<close> pairwise distinct positions
  \<open>ps\<close> of the original list.
\<close>

theorem shuffle_permutes:
  assumes "length xs = L" and "1 \<le> L" and "1 \<le> N" and "N \<le> L"
  shows "\<exists>ys ps. shuffle rnd xs (int L) = Some ys \<and> mset ys = mset xs \<and> length ys = L
           \<and> length ps = N \<and> distinct ps \<and> set ps \<subseteq> {0..<L}
           \<and> take N ys = map (\<lambda>p. xs ! p) ps"
proof -
  let ?js = "draws rnd L 0 (L - 1)"
  let ?qs = "swaps 0 ?js [0..<L]"
  have v: "valid_swaps L 0 ?js" by (intro valid_swaps_draws) simp
  have s: "shuffle rnd xs (int L) = Some (swaps 0 ?js xs)"
    using assms by (simp add: shuffle_swaps)
  have m: "mset (swaps 0 ?js xs) = mset xs"
    using v assms by (simp add: mset_swaps)
  have q: "mset ?qs = mset [0..<L]"
    using v by (simp add: mset_swaps)
  have dq: "distinct ?qs"
    using q by (metis distinct_upt mset_eq_imp_distinct_iff)
  have sq: "set ?qs = {0..<L}"
    using q by (metis atLeastLessThan_upt mset_eq_setD)
  have ix: "swaps 0 ?js xs = map (\<lambda>p. xs ! p) ?qs"
    using v assms swaps_indices [of xs 0 ?js] by simp
  have "length (take N ?qs) = N" using assms by simp
  moreover have "distinct (take N ?qs)" using dq by simp
  moreover have "set (take N ?qs) \<subseteq> {0..<L}" using sq set_take_subset by fastforce
  moreover have "take N (swaps 0 ?js xs) = map (\<lambda>p. xs ! p) (take N ?qs)"
    using ix by (simp add: take_map)
  ultimately show ?thesis using s m assms by (intro exI [of _ "swaps 0 ?js xs"] exI [of _ "take N ?qs"]) simp
qed


theorem shuffle_permutes_witness:
  "length [''alice'', ''bob'', ''carol''] = 3 \<and> (1::nat) \<le> 3 \<and> (1::nat) \<le> 2 \<and> (2::nat) \<le> 3 \<and>
   shuffle (\<lambda>i. [5, 7] ! i) [''alice'', ''bob'', ''carol''] (int 3) = Some [''carol'', ''alice'', ''bob''] \<and>
   (\<exists>ps. length ps = 2 \<and> distinct ps \<and> set ps \<subseteq> {0..<3} \<and>
      take 2 [''carol'', ''alice'', ''bob''] = map (\<lambda>p. [''alice'', ''bob'', ''carol''] ! p) ps)"
proof -
  have e: "shuffle (\<lambda>i. [5, 7] ! i) [''alice'', ''bob'', ''carol''] (int 3) = Some [''carol'', ''alice'', ''bob'']"
    by (simp add: shuffle_def shuffle_loop.simps swap_index_def c_rem_def in_bounds_def INT_MIN_def)
  from shuffle_permutes [of "[''alice'', ''bob'', ''carol'']" 3 2 "\<lambda>i. [5, 7] ! i"]
  obtain ys ps where "shuffle (\<lambda>i. [5, 7] ! i) [''alice'', ''bob'', ''carol''] (int 3) = Some ys"
    and "length ps = 2 \<and> distinct ps \<and> set ps \<subseteq> {0..<3}"
    and "take 2 ys = map (\<lambda>p. [''alice'', ''bob'', ''carol''] ! p) ps"
    by auto
  with e show ?thesis by auto
qed

text \<open>
  Claim C6. For a list of length \<open>L\<close>, \<open>1 \<le> N \<le> L\<close> and the same sequence of
  draws, the loop stopped after the indices \<open>0 .. N - 1\<close> and the full loop of the
  source (indices \<open>0 .. L - 2\<close>) both return, and their results agree on the first
  \<open>N\<close> positions.
\<close>

theorem shuffle_first_agrees:
  assumes "length xs = L" and "1 \<le> N" and "N \<le> L"
  shows "\<exists>ys zs. shuffle rnd xs (int L) = Some ys \<and> shuffle_first rnd xs (int L) (int N) = Some zs
           \<and> take N ys = take N zs"
proof (cases "N = L")
  case True
  have "draws rnd L 0 L = draws rnd L 0 (L - 1) @ draws rnd L (L - 1) 1"
    using assms draws_add [of rnd L 0 "L - 1" 1] by simp
  then have "swaps 0 (draws rnd L 0 L) xs = swaps 0 (draws rnd L 0 (L - 1)) xs"
    using assms swaps_last_draw [of L rnd] by (simp add: swaps_append del: draws.simps)
  with True assms show ?thesis
    by (simp add: shuffle_swaps shuffle_first_swaps)
next
  case False
  with assms have "N \<le> L - 1" by simp
  then have "take N (swaps 0 (draws rnd L 0 (L - 1)) xs) = take N (swaps 0 (draws rnd L 0 N) xs)"
    by (intro take_swaps_draws) simp_all
  with assms show ?thesis
    by (simp add: shuffle_swaps shuffle_first_swaps)
qed


theorem shuffle_first_agrees_witness:
  "length [''alice'', ''bob'', ''carol'', ''dave''] = 4 \<and> (1::nat) \<le> 2 \<and> (2::nat) \<le> 4 \<and>
   shuffle (\<lambda>i. [5, 7, 1] ! i) [''alice'', ''bob'', ''carol'', ''dave''] (int 4)
     = Some [''bob'', ''carol'', ''dave'', ''alice''] \<and>
   shuffle_first (\<lambda>i. [5, 7, 1] ! i) [''alice'', ''bob'', ''carol'', ''dave''] (int 4) (int 2)
     = Some [''bob'', ''carol'', ''alice'', ''dave''] \<and>
   take 2 [''bob'', ''carol'', ''dave'', ''alice''] = take 2 [''bob'', ''carol'', ''alice'', ''dave'']"
proof -
  have e: "shuffle (\<lambda>i. [5, 7, 1] ! i) [''alice'', ''bob'', ''carol'', ''dave''] (int 4)
     = Some [''bob'', ''carol'', ''dave'', ''alice'']"
    by (simp add: shuffle_def shuffle_loop.simps swap_index_def c_rem_def in_bounds_def INT_MIN_def)
  have f: "shuffle_first (\<lambda>i. [5, 7, 1] ! i) [''alice'', ''bob'', ''carol'', ''dave''] (int 4) (int 2)
     = Some [''bob'', ''carol'', ''alice'', ''dave'']"
    by (simp add: shuffle_first_def shuffle_first_loop.simps swap_index_def c_rem_def in_bounds_def)
  from shuffle_first_agrees [of "[''alice'', ''bob'', ''carol'', ''dave'']" 4 2 "\<lambda>i. [5, 7, 1] ! i"] e f
  show ?thesis by simp
qed

text \<open>
  Claim C9. \<open>shuffle\<close> never leaves the array: for \<open>n \<le> 1\<close> (and above
  \<open>INT_MIN\<close>, where \<^verbatim>\<open>n - 1\<close> overflows) the loop body does not
  run and the array is returned as it was; for \<open>0 \<le> n\<close> and an array of at least
  \<open>n\<close> elements the model, which checks every access and every divisor, returns a
  result; and at every index \<open>i\<close> the loop reaches (\<open>0 \<le> i < n - 1\<close>) and for every
  value \<open>r\<close> of \<^verbatim>\<open>rand()\<close> the divisor \<open>n - i\<close> is positive and the swap index
  \<open>j\<close> satisfies \<open>i \<le> j \<le> n - 1\<close>.
\<close>

theorem shuffle_in_bounds:
  "(INT_MIN < n \<and> n \<le> 1 \<longrightarrow> shuffle rnd array n = Some array) \<and>
   (0 \<le> n \<and> n \<le> int (length array) \<longrightarrow>
      (\<exists>ys. shuffle rnd array n = Some ys \<and> length ys = length array) \<and>
      (\<forall>i r. 0 \<le> i \<and> i < n - 1 \<longrightarrow>
         0 < n - i \<and> (\<exists>j. swap_index i n (int r) = Some j \<and> i \<le> j \<and> j \<le> n - 1)))"
proof (intro conjI impI allI)
  assume "INT_MIN < n \<and> n \<le> 1"
  then show "shuffle rnd array n = Some array"
    unfolding shuffle_def by (subst shuffle_loop.simps) simp
next
  assume a: "0 \<le> n \<and> n \<le> int (length array)"
  then have "nat n \<le> length array" by linarith
  then have "shuffle rnd array (int (nat n)) = Some (swaps 0 (draws rnd (nat n) 0 (nat n - 1)) array)"
    by (rule shuffle_swaps)
  with a show "\<exists>ys. shuffle rnd array n = Some ys \<and> length ys = length array" by simp
next
  fix i :: int and r :: nat
  assume a: "0 \<le> n \<and> n \<le> int (length array)" and b: "0 \<le> i \<and> i < n - 1"
  then show "0 < n - i" by linarith
  have "nat i < nat n" using a b by linarith
  then have "swap_index (int (nat i)) (int (nat n)) (int r) = Some (int (nat i + r mod (nat n - nat i)))"
    by (rule swap_index_draw)
  moreover have "r mod (nat n - nat i) < nat n - nat i" using \<open>nat i < nat n\<close> by simp
  then have "int (r mod (nat n - nat i)) < n - i" using a b by linarith
  ultimately show "\<exists>j. swap_index i n (int r) = Some j \<and> i \<le> j \<and> j \<le> n - 1"
    using a b by auto
qed


theorem shuffle_in_bounds_witness:
  "INT_MIN < 1 \<and> (1::int) \<le> 1 \<and> shuffle (\<lambda>i. 3) [''alice''] 1 = Some [''alice''] \<and>
   (0::int) \<le> 3 \<and> (3::int) \<le> int (length [''alice'', ''bob'', ''carol'']) \<and>
   shuffle (\<lambda>i. 3) [''alice'', ''bob'', ''carol''] 3 = Some [''alice'', ''carol'', ''bob''] \<and>
   (0::int) \<le> 1 \<and> (1::int) < 3 - 1 \<and> (0::int) < 3 - 1 \<and>
   swap_index 1 3 (int 3) = Some 2 \<and> (1::int) \<le> 2 \<and> (2::int) \<le> 3 - 1"
proof -
  have e: "shuffle (\<lambda>i. 3) [''alice'', ''bob'', ''carol''] 3 = Some [''alice'', ''carol'', ''bob'']"
    by (simp add: shuffle_def shuffle_loop.simps swap_index_def c_rem_def in_bounds_def INT_MIN_def)
  have f: "swap_index 1 3 (int 3) = Some 2"
    by (simp add: swap_index_def c_rem_def)
  have g: "INT_MIN < 1" by (simp add: INT_MIN_def)
  with shuffle_in_bounds [of 1 "\<lambda>i. 3" "[''alice'']"]
  have "shuffle (\<lambda>i. 3) [''alice''] 1 = Some [''alice'']" by simp
  with e f g show ?thesis by simp
qed

section \<open>Properties of \<^verbatim>\<open>read_lines\<close>\<close>


lemma strip_trailing_snoc:
  "strip_trailing (l @ [c]) = (if c = LF \<or> c = CR then strip_trailing l else l @ [c])"
  by (simp add: strip_trailing_def)

lemma strip_trailing_Nil [simp]: "strip_trailing [] = []"
  by (simp add: strip_trailing_def)

lemma strip_newlines_eq: "strip_newlines s = strip_trailing s"
proof (induction s rule: rev_induct)
  case Nil
  show ?case by (subst strip_newlines.simps) simp
next
  case (snoc c l)
  then show ?case by (subst strip_newlines.simps) (simp add: strip_trailing_snoc)
qed

lemma strip_trailing_prefix: "\<exists>t. l = strip_trailing l @ t"
proof -
  have "rev l = takeWhile (\<lambda>c. c = LF \<or> c = CR) (rev l) @ dropWhile (\<lambda>c. c = LF \<or> c = CR) (rev l)"
    by simp
  then have "l = rev (dropWhile (\<lambda>c. c = LF \<or> c = CR) (rev l)) @ rev (takeWhile (\<lambda>c. c = LF \<or> c = CR) (rev l))"
    by (metis rev_append rev_rev_ident)
  then show ?thesis unfolding strip_trailing_def by blast
qed

lemma strip_trailing_last:
  "strip_trailing l \<noteq> [] \<Longrightarrow> last (strip_trailing l) \<noteq> LF \<and> last (strip_trailing l) \<noteq> CR"
proof -
  assume a: "strip_trailing l \<noteq> []"
  let ?d = "dropWhile (\<lambda>c. c = LF \<or> c = CR) (rev l)"
  from a have "?d \<noteq> []" by (simp add: strip_trailing_def)
  then have "\<not> (hd ?d = LF \<or> hd ?d = CR)" using hd_dropWhile [of "\<lambda>c. c = LF \<or> c = CR" "rev l"] by blast
  moreover have "last (rev ?d) = hd ?d" using \<open>?d \<noteq> []\<close> by (simp add: last_rev)
  ultimately show ?thesis by (simp add: strip_trailing_def)
qed

lemma butlast_prefix_subset: "b = p @ t \<Longrightarrow> set (butlast p) \<subseteq> set (butlast b)"
  by (cases t rule: rev_cases) (auto simp: butlast_append dest: in_set_butlastD)

lemma fgets_chars_split: "fgets_chars k s = (b, r) \<Longrightarrow> s = b @ r \<and> length b \<le> k"
  by (induction k s arbitrary: b r rule: fgets_chars.induct) (auto split: if_splits prod.splits)

lemma fgets_chars_LF: "fgets_chars k s = (b, r) \<Longrightarrow> LF \<notin> set (butlast b)"
  by (induction k s arbitrary: b r rule: fgets_chars.induct) (auto split: if_splits prod.splits)

lemma c_string_prefix: "\<exists>t. b = c_string b @ t"
  unfolding c_string_def by (metis takeWhile_dropWhile_id)

lemma c_string_NUL: "NUL \<notin> set (c_string b)"
  unfolding c_string_def by (auto dest: set_takeWhileD)

lemma line_ok:
  assumes "fgets_chars k s = (b, r)" and "strip_newlines (c_string b) \<noteq> []"
  shows "entry_ok (strip_newlines (c_string b))"
proof -
  let ?l = "strip_trailing (c_string b)"
  from assms have ne: "?l \<noteq> []" by (simp add: strip_newlines_eq)
  obtain t where t: "c_string b = ?l @ t" using strip_trailing_prefix by blast
  obtain u where u: "b = c_string b @ u" using c_string_prefix by blast
  have "b = ?l @ (t @ u)" using t u by (metis append.assoc)
  then have "set (butlast ?l) \<subseteq> set (butlast b)" by (rule butlast_prefix_subset)
  with fgets_chars_LF [OF assms(1)] have "LF \<notin> set (butlast ?l)" by blast
  moreover have "last ?l \<noteq> LF" "last ?l \<noteq> CR" using strip_trailing_last [OF ne] by simp_all
  moreover have "set ?l = insert (last ?l) (set (butlast ?l))"
    using ne by (metis append_butlast_last_id list.simps(15) rotate1.simps(2) set_rotate1)
  moreover have "NUL \<notin> set ?l" using t c_string_NUL [of b] by (metis Un_iff set_append)
  ultimately show ?thesis using ne by (simp add: entry_ok_def strip_newlines_eq)
qed

lemma append_line_Stored:
  "append_line allocs capacity lines line = Stored allocs1 capacity1 lines1 \<Longrightarrow> lines1 = lines @ [line]"
  by (auto simp: append_line_def split: if_splits prod.splits bool.splits)

lemma store_line_Stored:
  "store_line allocs capacity lines line = Stored allocs1 capacity1 lines1 \<Longrightarrow> lines1 = lines @ [line]"
  by (auto simp: store_line_def split: if_splits prod.splits bool.splits dest: append_line_Stored)

lemma read_lines_loop_entries_ok:
  "read_lines_loop content allocs capacity lines = Some (rc, out) \<Longrightarrow>
   \<forall>l\<in>set lines. entry_ok l \<Longrightarrow> \<forall>l\<in>set out. entry_ok l"
proof (induction content allocs capacity lines rule: read_lines_loop.induct)
  case (1 content allocs capacity lines)
  show ?case
  proof (cases "content = []")
    case True
    with "1.prems" show ?thesis
      by (subst (asm) read_lines_loop.simps) (simp add: fgets_def)
  next
    case False
    obtain buffer rest where f: "fgets_chars 255 content = (buffer, rest)" by fastforce
    with False have g: "fgets MAX_LINE_LENGTH content = Some (buffer, rest)"
      by (simp add: fgets_def MAX_LINE_LENGTH_def)
    let ?line = "strip_newlines (c_string buffer)"
    show ?thesis
    proof (cases "?line = []")
      case True
      with "1.prems"(1) g have "read_lines_loop rest allocs capacity lines = Some (rc, out)"
        by (subst (asm) read_lines_loop.simps) simp
      with "1.IH"(1) [OF g refl refl True] "1.prems"(2) show ?thesis by blast
    next
      case ne: False
      then have ok: "entry_ok ?line" using line_ok [OF f] by blast
      show ?thesis
      proof (cases "store_line allocs capacity lines ?line")
        case Undefined
        with "1.prems"(1) g ne show ?thesis
          by (subst (asm) read_lines_loop.simps) simp
      next
        case No_Memory
        with "1.prems" g ne show ?thesis
          by (subst (asm) read_lines_loop.simps) simp
      next
        case (Stored allocs1 capacity1 lines1)
        then have l1: "lines1 = lines @ [?line]" by (rule store_line_Stored)
        from Stored "1.prems"(1) g ne
        have "read_lines_loop rest allocs1 capacity1 lines1 = Some (rc, out)"
          by (subst (asm) read_lines_loop.simps) simp
        moreover have "\<forall>l\<in>set lines1. entry_ok l" using l1 ok "1.prems"(2) by simp
        ultimately show ?thesis using "1.IH"(2) [OF g refl refl ne Stored] by blast
      qed
    qed
  qed
qed


lemma fgets_chars_nonempty: "s \<noteq> [] \<Longrightarrow> fgets_chars (Suc k) s = (b, r) \<Longrightarrow> b \<noteq> []"
  by (cases s) (auto split: if_splits prod.splits)

lemma read_lines_loop_Nil: "read_lines_loop [] allocs capacity lines = Some (0, lines)"
  by (subst read_lines_loop.simps) (simp add: fgets_def)

lemma read_lines_loop_step:
  assumes "content \<noteq> []" and "fgets_chars 255 content = (buffer, rest)"
  shows "read_lines_loop content allocs capacity lines =
     (if strip_trailing (c_string buffer) = [] then read_lines_loop rest allocs capacity lines
      else (case store_line allocs capacity lines (strip_trailing (c_string buffer)) of
              Undefined \<Rightarrow> None
            | No_Memory \<Rightarrow> Some (- 2, lines)
            | Stored allocs1 capacity1 lines1 \<Rightarrow> read_lines_loop rest allocs1 capacity1 lines1))"
    and "length rest < length content"
proof -
  from assms have "fgets MAX_LINE_LENGTH content = Some (buffer, rest)"
    by (simp add: fgets_def MAX_LINE_LENGTH_def)
  then show "read_lines_loop content allocs capacity lines =
     (if strip_trailing (c_string buffer) = [] then read_lines_loop rest allocs capacity lines
      else (case store_line allocs capacity lines (strip_trailing (c_string buffer)) of
              Undefined \<Rightarrow> None
            | No_Memory \<Rightarrow> Some (- 2, lines)
            | Stored allocs1 capacity1 lines1 \<Rightarrow> read_lines_loop rest allocs1 capacity1 lines1))"
    by (subst read_lines_loop.simps) (simp add: strip_newlines_eq)
  have "fgets_chars (Suc 254) content = (buffer, rest)" using assms(2) by simp
  then have "buffer \<noteq> []" using assms(1) fgets_chars_nonempty by blast
  moreover have "content = buffer @ rest" using fgets_chars_split [OF assms(2)] by simp
  ultimately show "length rest < length content" by (cases buffer) simp_all
qed

lemma read_lines_loop_same:
  "read_lines_loop content allocs1 capacity1 lines = Some (0, out1) \<Longrightarrow>
   read_lines_loop content allocs2 capacity2 lines = Some (0, out2) \<Longrightarrow> out1 = out2"
proof (induction content arbitrary: allocs1 capacity1 allocs2 capacity2 lines rule: length_induct)
  case (1 content)
  show ?case
  proof (cases "content = []")
    case True
    with "1.prems" show ?thesis by (simp add: read_lines_loop_Nil)
  next
    case False
    obtain buffer rest where f: "fgets_chars 255 content = (buffer, rest)" by fastforce
    note step = read_lines_loop_step [OF False f]
    let ?line = "strip_trailing (c_string buffer)"
    show ?thesis
    proof (cases "?line = []")
      case True
      with "1.prems" step(1) have
        "read_lines_loop rest allocs1 capacity1 lines = Some (0, out1)"
        "read_lines_loop rest allocs2 capacity2 lines = Some (0, out2)"
        by simp_all
      with "1.IH" step(2) show ?thesis by blast
    next
      case ne: False
      from "1.prems"(1) ne step(1) [of allocs1 capacity1 lines]
      obtain a1 c1 l1 where s1: "store_line allocs1 capacity1 lines ?line = Stored a1 c1 l1"
        and r1: "read_lines_loop rest a1 c1 l1 = Some (0, out1)"
        by (cases "store_line allocs1 capacity1 lines ?line") simp_all
      from "1.prems"(2) ne step(1) [of allocs2 capacity2 lines]
      obtain a2 c2 l2 where s2: "store_line allocs2 capacity2 lines ?line = Stored a2 c2 l2"
        and r2: "read_lines_loop rest a2 c2 l2 = Some (0, out2)"
        by (cases "store_line allocs2 capacity2 lines ?line") simp_all
      have "l1 = l2" using store_line_Stored [OF s1] store_line_Stored [OF s2] by simp
      with r1 r2 "1.IH" step(2) show ?thesis by blast
    qed
  qed
qed

lemma file_lines_no_LF: "LF \<notin> set s \<Longrightarrow> s \<noteq> [] \<Longrightarrow> file_lines s = [s]"
proof (induction s)
  case Nil
  then show ?case by simp
next
  case (Cons c s)
  then show ?case by (cases "s = []") auto
qed

lemma file_lines_LF: "LF \<notin> set l \<Longrightarrow> file_lines (l @ LF # r) = l # file_lines r"
  by (induction l) auto

lemma fgets_chars_full: "LF \<notin> set l \<Longrightarrow> length l = k \<Longrightarrow> fgets_chars k (l @ r) = (l, r)"
  by (induction l arbitrary: k) auto

lemma fgets_chars_eof: "LF \<notin> set s \<Longrightarrow> length s \<le> k \<Longrightarrow> fgets_chars k s = (s, [])"
proof (induction s arbitrary: k)
  case Nil
  then show ?case by (cases k) simp_all
next
  case (Cons c s)
  then show ?case by (cases k) auto
qed

lemma fgets_chars_line: "LF \<notin> set l \<Longrightarrow> length l < k \<Longrightarrow> fgets_chars k (l @ LF # r) = (l @ [LF], r)"
proof (induction l arbitrary: k)
  case Nil
  then show ?case by (cases k) simp_all
next
  case (Cons c l)
  then show ?case by (cases k) auto
qed

lemma c_string_id: "NUL \<notin> set b \<Longrightarrow> c_string b = b"
  by (auto simp: c_string_def takeWhile_eq_all_conv)

lemma spec_load_step:
  assumes "content \<noteq> []" and "short_lines content" and "fgets_chars 255 content = (buffer, rest)"
  shows "short_lines rest"
    and "spec_load content =
      (if strip_trailing (c_string buffer) = [] then spec_load rest
       else strip_trailing (c_string buffer) # spec_load rest)"
proof -
  have nul: "NUL \<notin> set content" and len: "\<forall>l\<in>set (file_lines content). length l < 256"
    using assms(2) by (auto simp: short_lines_def MAX_LINE_LENGTH_def)
  have "short_lines rest \<and> spec_load content =
      (if strip_trailing (c_string buffer) = [] then spec_load rest
       else strip_trailing (c_string buffer) # spec_load rest)"
  proof (cases "LF \<in> set content")
    case False
    then have fl: "file_lines content = [content]" using assms(1) by (simp add: file_lines_no_LF)
    with len have "length content \<le> 255" by simp
    with False have "fgets_chars 255 content = (content, [])" by (rule fgets_chars_eof)
    with assms(3) have "buffer = content" "rest = []" by simp_all
    with fl nul show ?thesis
      by (simp add: spec_load_def c_string_id short_lines_def)
  next
    case True
    then obtain l r where c: "content = l @ LF # r" and l: "LF \<notin> set l"
      by (meson split_list_first)
    have fl: "file_lines content = l # file_lines r" using c l by (simp add: file_lines_LF)
    with len have ll: "length l \<le> 255" and lr: "\<forall>l\<in>set (file_lines r). length l < 256" by simp_all
    have nl: "NUL \<notin> set l" and nr: "NUL \<notin> set r" using nul c by simp_all
    show ?thesis
    proof (cases "length l < 255")
      case True
      with l have "fgets_chars 255 (l @ LF # r) = (l @ [LF], r)" by (rule fgets_chars_line)
      with assms(3) c have b: "buffer = l @ [LF]" "rest = r" by simp_all
      have "NUL \<notin> set (l @ [LF])" using nl by (simp add: NUL_def LF_def)
      then have "c_string (l @ [LF]) = l @ [LF]" by (rule c_string_id)
      with b fl lr nr show ?thesis
        by (simp add: spec_load_def strip_trailing_snoc short_lines_def MAX_LINE_LENGTH_def)
    next
      case False
      with ll have "length l = 255" by simp
      with l have "fgets_chars 255 (l @ (LF # r)) = (l, LF # r)" by (rule fgets_chars_full)
      with assms(3) c have b: "buffer = l" "rest = LF # r" by simp_all
      have "c_string l = l" using nl by (rule c_string_id)
      moreover have "NUL \<notin> set (LF # r)" using nr by (simp add: NUL_def LF_def)
      ultimately show ?thesis using b fl lr
        by (simp add: spec_load_def short_lines_def MAX_LINE_LENGTH_def)
    qed
  qed
  then show "short_lines rest"
    and "spec_load content =
      (if strip_trailing (c_string buffer) = [] then spec_load rest
       else strip_trailing (c_string buffer) # spec_load rest)"
    by simp_all
qed

lemma read_lines_loop_spec:
  "short_lines content \<Longrightarrow> read_lines_loop content allocs capacity lines = Some (0, out) \<Longrightarrow>
   out = lines @ spec_load content"
proof (induction content arbitrary: allocs capacity lines rule: length_induct)
  case (1 content)
  show ?case
  proof (cases "content = []")
    case True
    with "1.prems" show ?thesis by (simp add: read_lines_loop_Nil spec_load_def)
  next
    case False
    obtain buffer rest where f: "fgets_chars 255 content = (buffer, rest)" by fastforce
    note step = read_lines_loop_step [OF False f]
    note spec = spec_load_step [OF False "1.prems"(1) f]
    let ?line = "strip_trailing (c_string buffer)"
    show ?thesis
    proof (cases "?line = []")
      case True
      with "1.prems" step(1) have "read_lines_loop rest allocs capacity lines = Some (0, out)"
        by simp
      with "1.IH" step(2) spec(1) have "out = lines @ spec_load rest" by blast
      with True spec(2) show ?thesis by simp
    next
      case ne: False
      from "1.prems"(2) ne step(1) [of allocs capacity lines]
      obtain a1 c1 l1 where s1: "store_line allocs capacity lines ?line = Stored a1 c1 l1"
        and r1: "read_lines_loop rest a1 c1 l1 = Some (0, out)"
        by (cases "store_line allocs capacity lines ?line") simp_all
      have "l1 = lines @ [?line]" using s1 by (rule store_line_Stored)
      moreover have "out = l1 @ spec_load rest" using "1.IH" step(2) spec(1) r1 by blast
      ultimately show ?thesis using ne spec(2) by simp
    qed
  qed
qed


lemma alloc_cases:
  "alloc allocs = (ok, allocs1) \<Longrightarrow> (\<not> ok \<longrightarrow> False \<in> set allocs) \<and> set allocs1 \<subseteq> set allocs"
  by (cases allocs) auto

lemma store_line_cases:
  assumes "0 < capacity" and "int (length lines) \<le> capacity" and "length lines < 2 ^ 30"
  shows "(store_line allocs capacity lines line = No_Memory \<and> False \<in> set allocs) \<or>
         (\<exists>allocs1 capacity1. store_line allocs capacity lines line = Stored allocs1 capacity1 (lines @ [line])
            \<and> set allocs1 \<subseteq> set allocs \<and> 0 < capacity1 \<and> int (length (lines @ [line])) \<le> capacity1)"
proof -
  obtain b1 a1 where a1: "alloc allocs = (b1, a1)" by fastforce
  obtain b2 a2 where a2: "alloc a1 = (b2, a2)" by fastforce
  note c1 = alloc_cases [OF a1] and c2 = alloc_cases [OF a2]
  show ?thesis
  proof (cases "int (length lines) \<ge> capacity")
    case True
    with assms(2) have cap: "capacity = int (length lines)" by simp
    with assms(3) have "capacity * 2 \<le> INT_MAX" by (simp add: INT_MAX_def)
    moreover have "int (length lines) < capacity * 2" using cap assms(1) by linarith
    moreover have "int (length (lines @ [line])) \<le> capacity * 2"
    proof -
      have "int (length (lines @ [line])) = capacity + 1" using cap by simp
      with assms(1) show ?thesis by linarith
    qed
    moreover have "0 < capacity * 2" using assms(1) by simp
    ultimately show ?thesis using True a1 a2 c1 c2
      by (cases b1; cases b2) (auto simp: store_line_def append_line_def)
  next
    case False
    with assms a1 c1 show ?thesis
      by (cases b1) (auto simp: store_line_def append_line_def)
  qed
qed

lemma read_lines_loop_returns:
  "0 < capacity \<Longrightarrow> int (length lines) \<le> capacity \<Longrightarrow> length lines + length content < 2 ^ 30 \<Longrightarrow>
   \<exists>rc out. read_lines_loop content allocs capacity lines = Some (rc, out)
      \<and> (rc = 0 \<or> rc = - 2 \<and> False \<in> set allocs)"
proof (induction content arbitrary: allocs capacity lines rule: length_induct)
  case (1 content)
  show ?case
  proof (cases "content = []")
    case True
    then show ?thesis by (simp add: read_lines_loop_Nil)
  next
    case False
    obtain buffer rest where f: "fgets_chars 255 content = (buffer, rest)" by fastforce
    note step = read_lines_loop_step [OF False f]
    let ?line = "strip_trailing (c_string buffer)"
    show ?thesis
    proof (cases "?line = []")
      case True
      have "length lines + length rest < 2 ^ 30" using step(2) "1.prems"(3) by linarith
      with "1.IH" step(2) "1.prems"(1,2)
      have "\<exists>rc out. read_lines_loop rest allocs capacity lines = Some (rc, out)
              \<and> (rc = 0 \<or> rc = - 2 \<and> False \<in> set allocs)" by blast
      with True step(1) show ?thesis by simp
    next
      case ne: False
      have "length lines < 2 ^ 30" using "1.prems"(3) by linarith
      from store_line_cases [OF "1.prems"(1,2) this, of allocs ?line]
      show ?thesis
      proof
        assume "store_line allocs capacity lines ?line = No_Memory \<and> False \<in> set allocs"
        with ne step(1) show ?thesis by simp
      next
        assume "\<exists>allocs1 capacity1. store_line allocs capacity lines ?line = Stored allocs1 capacity1 (lines @ [?line])
            \<and> set allocs1 \<subseteq> set allocs \<and> 0 < capacity1 \<and> int (length (lines @ [?line])) \<le> capacity1"
        then obtain a1 c1 where s1: "store_line allocs capacity lines ?line = Stored a1 c1 (lines @ [?line])"
          and sub: "set a1 \<subseteq> set allocs" and inv: "0 < c1" "int (length (lines @ [?line])) \<le> c1"
          by blast
        have "length (lines @ [?line]) + length rest < 2 ^ 30"
          using step(2) "1.prems"(3) by simp
        with "1.IH" step(2) inv
        have "\<exists>rc out. read_lines_loop rest a1 c1 (lines @ [?line]) = Some (rc, out)
              \<and> (rc = 0 \<or> rc = - 2 \<and> False \<in> set a1)" by blast
        with ne s1 step(1) sub show ?thesis by auto
      qed
    qed
  qed
qed

lemma read_lines_returns:
  assumes "\<forall>content. fs filename = Some content \<longrightarrow> length content < 2 ^ 30"
  shows "\<exists>rc lines. read_lines fs filename allocs = Some (rc, lines)
           \<and> (rc = 0 \<or> rc = - 1 \<or> rc = - 2) \<and> (rc = - 1 \<longleftrightarrow> fs filename = None)
           \<and> (rc = - 2 \<longrightarrow> False \<in> set allocs)"
proof (cases "fs filename")
  case None
  then show ?thesis by (simp add: read_lines_def)
next
  case (Some content)
  obtain b1 a1 where a1: "alloc allocs = (b1, a1)" by fastforce
  note c1 = alloc_cases [OF a1]
  show ?thesis
  proof (cases b1)
    case False
    with Some a1 c1 show ?thesis by (simp add: read_lines_def)
  next
    case True
    have "length ([] :: string list) + length content < 2 ^ 30" using assms Some by simp
    from read_lines_loop_returns [OF _ _ this, of INITIAL_CAPACITY a1]
    obtain rc out where "read_lines_loop content a1 INITIAL_CAPACITY [] = Some (rc, out)"
      and "rc = 0 \<or> rc = - 2 \<and> False \<in> set a1"
      by (auto simp: INITIAL_CAPACITY_def)
    with Some a1 c1 True show ?thesis by (auto simp: read_lines_def)
  qed
qed

text \<open>
  Claim C8. Loading is a function of the file's contents: two runs of \<open>read_lines\<close>
  that both return 0, on files with the same contents, yield the same ordered sequence,
  whatever the names of the files and the outcomes of the allocations of each run.
  (A run returns 0 whenever no allocation fails, by \<open>read_lines_returns\<close>.)
\<close>


theorem read_lines_deterministic:
  assumes "fs1 name1 = fs2 name2"
    and "read_lines fs1 name1 allocs1 = Some (0, lines1)"
    and "read_lines fs2 name2 allocs2 = Some (0, lines2)"
  shows "lines1 = lines2"
proof (cases "fs1 name1")
  case None
  with assms(2) show ?thesis by (simp add: read_lines_def)
next
  case (Some content)
  obtain b1 a1 where a1: "alloc allocs1 = (b1, a1)" by fastforce
  obtain b2 a2 where a2: "alloc allocs2 = (b2, a2)" by fastforce
  from Some assms(2) a1 have "read_lines_loop content a1 INITIAL_CAPACITY [] = Some (0, lines1)"
    by (cases b1) (simp_all add: read_lines_def)
  moreover from Some assms(1,3) a2 have "read_lines_loop content a2 INITIAL_CAPACITY [] = Some (0, lines2)"
    by (cases b2) (simp_all add: read_lines_def)
  ultimately show ?thesis by (rule read_lines_loop_same)
qed

theorem read_lines_deterministic_witness:
  "(\<lambda>name. Some (''alice'' @ [LF, LF] @ ''bob'' @ [LF])) ''a.txt'' = (\<lambda>name. Some (''alice'' @ [LF, LF] @ ''bob'' @ [LF])) ''b.txt'' \<and>
   read_lines (\<lambda>name. Some (''alice'' @ [LF, LF] @ ''bob'' @ [LF])) ''a.txt'' [] = Some (0, [''alice'', ''bob'']) \<and>
   read_lines (\<lambda>name. Some (''alice'' @ [LF, LF] @ ''bob'' @ [LF])) ''b.txt'' [True, True, True, False] = Some (0, [''alice'', ''bob''])"
proof -
  have a: "read_lines (\<lambda>name. Some (''alice'' @ [LF, LF] @ ''bob'' @ [LF])) ''a.txt'' [] = Some (0, [''alice'', ''bob''])"
    by code_simp
  have b: "read_lines (\<lambda>name. Some (''alice'' @ [LF, LF] @ ''bob'' @ [LF])) ''b.txt'' [True, True, True, False] = Some (0, [''alice'', ''bob''])"
    by code_simp
  have "[''alice'', ''bob''] = [''alice'', ''bob'']"
    by (rule read_lines_deterministic [OF _ a b]) simp
  with a b show ?thesis by simp
qed

text \<open>
  Claim C5, as amended. Every entry \<open>read_lines\<close> stores is non-empty, contains no
  newline and does not end with a carriage return.
\<close>


theorem read_lines_entries:
  assumes "read_lines fs filename allocs = Some (rc, lines)"
  shows "\<forall>l\<in>set lines. l \<noteq> [] \<and> LF \<notin> set l \<and> last l \<noteq> CR"
proof (cases "fs filename")
  case None
  with assms show ?thesis by (simp add: read_lines_def)
next
  case (Some content)
  obtain b1 a1 where a1: "alloc allocs = (b1, a1)" by fastforce
  show ?thesis
  proof (cases b1)
    case False
    with Some a1 assms show ?thesis by (simp add: read_lines_def)
  next
    case True
    with Some a1 assms have "read_lines_loop content a1 INITIAL_CAPACITY [] = Some (rc, lines)"
      by (simp add: read_lines_def)
    then have "\<forall>l\<in>set lines. entry_ok l" by (rule read_lines_loop_entries_ok) simp
    then show ?thesis by (simp add: entry_ok_def)
  qed
qed

theorem read_lines_entries_witness:
  "read_lines (\<lambda>name. Some (''alice'' @ [CR, LF, CR, LF] @ ''bob'')) ''a.txt'' [] = Some (0, [''alice'', ''bob'']) \<and>
   ''alice'' \<noteq> [] \<and> LF \<notin> set ''alice'' \<and> last ''alice'' \<noteq> CR \<and>
   ''bob'' \<noteq> [] \<and> LF \<notin> set ''bob'' \<and> last ''bob'' \<noteq> CR"
proof -
  have a: "read_lines (\<lambda>name. Some (''alice'' @ [CR, LF, CR, LF] @ ''bob'')) ''a.txt'' [] = Some (0, [''alice'', ''bob''])"
    by code_simp
  from read_lines_entries [OF a] have "\<forall>l\<in>set [''alice'', ''bob'']. l \<noteq> [] \<and> LF \<notin> set l \<and> last l \<noteq> CR" .
  with a show ?thesis by simp
qed

text \<open>
  The claim as stated fails: a line made of \<open>a\<close>, a carriage return and \<open>b\<close> is
  stored with its carriage return.
\<close>

theorem read_lines_inner_CR:
  "read_lines (\<lambda>name. Some (''a'' @ [CR] @ ''b'' @ [LF])) ''a.txt'' [] = Some (0, [''a'' @ [CR] @ ''b'']) \<and>
   CR \<in> set (''a'' @ [CR] @ ''b'')"
proof -
  have "read_lines (\<lambda>name. Some (''a'' @ [CR] @ ''b'' @ [LF])) ''a.txt'' [] = Some (0, [''a'' @ [CR] @ ''b''])"
    by code_simp
  moreover have "CR \<in> set (''a'' @ [CR] @ ''b'')" by simp
  ultimately show ?thesis by blast
qed

text \<open>
  Claim C3, as amended. For a file without zero bytes whose lines are all shorter than
  \<open>MAX_LINE_LENGTH\<close> (at most 255 bytes before the newline), a run of \<open>read_lines\<close>
  that returns 0 yields exactly the file's lines, in order and with duplicates, each
  with its trailing newline and carriage returns removed, the lines left empty
  discarded; and the run does return 0 when no allocation fails and the file is shorter
  than \<open>2 ^ 30\<close> bytes.
\<close>


theorem read_lines_spec_load:
  assumes "fs filename = Some content" and "NUL \<notin> set content"
    and "\<forall>l\<in>set (file_lines content). length l < MAX_LINE_LENGTH"
  shows "(\<forall>lines. read_lines fs filename allocs = Some (0, lines) \<longrightarrow> lines = spec_load content) \<and>
         (False \<notin> set allocs \<and> length content < 2 ^ 30 \<longrightarrow>
            read_lines fs filename allocs = Some (0, spec_load content))"
proof -
  have sl: "short_lines content" using assms(2,3) by (simp add: short_lines_def)
  have 1: "lines = spec_load content" if "read_lines fs filename allocs = Some (0, lines)" for lines
  proof -
    obtain b1 a1 where a1: "alloc allocs = (b1, a1)" by fastforce
    from that assms(1) a1 have "read_lines_loop content a1 INITIAL_CAPACITY [] = Some (0, lines)"
      by (cases b1) (simp_all add: read_lines_def)
    with sl have "lines = [] @ spec_load content" by (rule read_lines_loop_spec)
    then show ?thesis by simp
  qed
  have 2: "read_lines fs filename allocs = Some (0, spec_load content)"
    if ok: "False \<notin> set allocs" and small: "length content < 2 ^ 30"
  proof -
    have "\<forall>c. fs filename = Some c \<longrightarrow> length c < 2 ^ 30" using assms(1) small by simp
    from read_lines_returns [of fs filename allocs, OF this]
    obtain lines where "read_lines fs filename allocs = Some (0, lines)"
      using ok assms(1) by auto
    with 1 show ?thesis by simp
  qed
  from 1 2 show ?thesis by blast
qed

theorem read_lines_spec_load_witness:
  "NUL \<notin> set (''alice'' @ [LF, LF] @ ''bob'' @ [LF]) \<and>
   file_lines (''alice'' @ [LF, LF] @ ''bob'' @ [LF]) = [''alice'', [], ''bob''] \<and>
   length ''alice'' < MAX_LINE_LENGTH \<and> length ''bob'' < MAX_LINE_LENGTH \<and>
   False \<notin> set [True] \<and> length (''alice'' @ [LF, LF] @ ''bob'' @ [LF]) < (2::nat) ^ 30 \<and>
   read_lines (\<lambda>name. Some (''alice'' @ [LF, LF] @ ''bob'' @ [LF])) ''a.txt'' [True]
     = Some (0, spec_load (''alice'' @ [LF, LF] @ ''bob'' @ [LF])) \<and>
   spec_load (''alice'' @ [LF, LF] @ ''bob'' @ [LF]) = [''alice'', ''bob'']"
proof -
  let ?c = "''alice'' @ [LF, LF] @ ''bob'' @ [LF]"
  have n: "NUL \<notin> set ?c" by code_simp
  have f: "file_lines ?c = [''alice'', [], ''bob'']" by code_simp
  have s: "spec_load ?c = [''alice'', ''bob'']" by code_simp
  have l: "\<forall>l\<in>set (file_lines ?c). length l < MAX_LINE_LENGTH" by code_simp
  have a: "length ''alice'' < MAX_LINE_LENGTH" and b: "length ''bob'' < MAX_LINE_LENGTH"
    by (simp_all add: MAX_LINE_LENGTH_def)
  have t: "False \<notin> set [True]" by simp
  have k: "length ?c < (2::nat) ^ 30" by simp
  from read_lines_spec_load [of "\<lambda>name. Some ?c" "''a.txt''" ?c "[True]", OF refl n l] t k
  have r: "read_lines (\<lambda>name. Some ?c) ''a.txt'' [True] = Some (0, spec_load ?c)" by blast
  from n f a b t k r s show ?thesis by blast
qed

text \<open>
  The claim as stated fails on a line longer than the buffer, which \<^verbatim>\<open>fgets\<close> hands
  over in pieces of 255 bytes, each stored as an entry of its own; and on a line with a
  zero byte, where \<^verbatim>\<open>strlen\<close> ends the entry.
\<close>

theorem read_lines_long_line:
  "read_lines (\<lambda>name. Some (replicate 256 (CHR ''a'') @ [LF])) ''a.txt'' []
     = Some (0, [replicate 255 (CHR ''a''), ''a'']) \<and>
   spec_load (replicate 256 (CHR ''a'') @ [LF]) = [replicate 256 (CHR ''a'')] \<and>
   read_lines (\<lambda>name. Some (''al'' @ [NUL] @ ''ice'' @ [LF])) ''a.txt'' [] = Some (0, [''al'']) \<and>
   spec_load (''al'' @ [NUL] @ ''ice'' @ [LF]) = [''al'' @ [NUL] @ ''ice'']"
proof -
  have a: "read_lines (\<lambda>name. Some (replicate 256 (CHR ''a'') @ [LF])) ''a.txt'' []
     = Some (0, [replicate 255 (CHR ''a''), ''a''])"
    by code_simp
  have b: "spec_load (replicate 256 (CHR ''a'') @ [LF]) = [replicate 256 (CHR ''a'')]"
    by code_simp
  have c: "read_lines (\<lambda>name. Some (''al'' @ [NUL] @ ''ice'' @ [LF])) ''a.txt'' [] = Some (0, [''al''])"
    by code_simp
  have d: "spec_load (''al'' @ [NUL] @ ''ice'' @ [LF]) = [''al'' @ [NUL] @ ''ice'']"
    by code_simp
  from a b c d show ?thesis by blast
qed

subsection \<open>Allocations of a load\<close>

text \<open>
  A load that returns 0 with \<open>k\<close> entries has made \<open>allocations k\<close> allocation calls,
  none of which failed. So a failure among the first \<open>allocations k\<close> allocation
  outcomes, \<open>k\<close> being the number of entries the file holds, makes the load return -2.
\<close>

lemma alloc_take:
  "alloc allocs = (True, allocs1) \<Longrightarrow> set (take (Suc m) allocs) \<subseteq> insert True (set (take m allocs1))"
  by (cases allocs) auto

lemma store_line_take:
  assumes "store_line allocs capacity lines line = Stored allocs1 capacity1 lines1"
  shows "set (take ((if int (length lines) \<ge> capacity then 2 else 1) + m) allocs)
           \<subseteq> insert True (set (take m allocs1))"
    and "capacity1 = (if int (length lines) \<ge> capacity then capacity * 2 else capacity)"
proof -
  obtain b1 a1 where a1: "alloc allocs = (b1, a1)" by fastforce
  obtain b2 a2 where a2: "alloc a1 = (b2, a2)" by fastforce
  have "set (take ((if int (length lines) \<ge> capacity then 2 else 1) + m) allocs)
           \<subseteq> insert True (set (take m allocs1)) \<and>
        capacity1 = (if int (length lines) \<ge> capacity then capacity * 2 else capacity)"
  proof (cases "int (length lines) \<ge> capacity")
    case False
    with assms a1 have "b1" and "allocs1 = a1" and c: "capacity1 = capacity"
      by (auto simp: store_line_def append_line_def split: if_splits bool.splits)
    with a1 have "alloc allocs = (True, allocs1)" by simp
    then have "set (take (Suc m) allocs) \<subseteq> insert True (set (take m allocs1))" by (rule alloc_take)
    with False c show ?thesis by simp
  next
    case True
    with assms a1 a2 have b: "b1" "b2" and e: "allocs1 = a2" and c: "capacity1 = capacity * 2"
      by (auto simp: store_line_def append_line_def split: if_splits bool.splits)
    from a1 b have "alloc allocs = (True, a1)" by simp
    then have s1: "set (take (Suc (Suc m)) allocs) \<subseteq> insert True (set (take (Suc m) a1))"
      by (rule alloc_take)
    from a2 b have "alloc a1 = (True, a2)" by simp
    then have "set (take (Suc m) a1) \<subseteq> insert True (set (take m a2))"
      by (rule alloc_take)
    with s1 e have "set (take (Suc (Suc m)) allocs) \<subseteq> insert True (set (take m allocs1))" by blast
    with True c show ?thesis by simp
  qed
  then show "set (take ((if int (length lines) \<ge> capacity then 2 else 1) + m) allocs)
           \<subseteq> insert True (set (take m allocs1))"
    and "capacity1 = (if int (length lines) \<ge> capacity then capacity * 2 else capacity)"
    by blast+
qed

lemma doublings_full:
  "0 < capacity \<Longrightarrow> capacity < int k \<Longrightarrow> doublings capacity k = Suc (doublings (capacity * 2) k)"
  by (subst doublings.simps) simp

lemma read_lines_loop_allocs:
  "read_lines_loop content allocs capacity lines = Some (0, out) \<Longrightarrow>
   0 < capacity \<Longrightarrow> int (length lines) \<le> capacity \<Longrightarrow>
   length lines \<le> length out \<and>
   False \<notin> set (take (length out - length lines + doublings capacity (length out)) allocs)"
proof (induction content arbitrary: allocs capacity lines rule: length_induct)
  case (1 content)
  show ?case
  proof (cases "content = []")
    case True
    with "1.prems" have "out = lines" by (simp add: read_lines_loop_Nil)
    moreover have "doublings capacity (length lines) = 0"
      using "1.prems"(3) by (subst doublings.simps) simp
    ultimately show ?thesis by simp
  next
    case False
    obtain buffer rest where f: "fgets_chars 255 content = (buffer, rest)" by fastforce
    note step = read_lines_loop_step [OF False f]
    let ?line = "strip_trailing (c_string buffer)"
    show ?thesis
    proof (cases "?line = []")
      case True
      with "1.prems"(1) step(1) have "read_lines_loop rest allocs capacity lines = Some (0, out)"
        by simp
      with "1.IH" step(2) "1.prems"(2,3) show ?thesis by blast
    next
      case ne: False
      from "1.prems"(1) ne step(1) [of allocs capacity lines]
      obtain a1 c1 l1 where s1: "store_line allocs capacity lines ?line = Stored a1 c1 l1"
        and r1: "read_lines_loop rest a1 c1 l1 = Some (0, out)"
        by (cases "store_line allocs capacity lines ?line") simp_all
      have l1: "l1 = lines @ [?line]" using store_line_Stored [OF s1] .
      note st = store_line_take [OF s1]
      have c1: "0 < c1" "int (length l1) \<le> c1"
        using st(2) l1 "1.prems"(2,3) by (auto split: if_splits)
      from "1.IH" step(2) r1 c1
      have ih: "length l1 \<le> length out"
        "False \<notin> set (take (length out - length l1 + doublings c1 (length out)) a1)"
        by blast+
      from ih(1) l1 have le: "length lines \<le> length out" and lt: "length lines < length out"
        and d: "length out - length lines = Suc (length out - length l1)" by simp_all
      have "length out - length lines + doublings capacity (length out)
          = (if int (length lines) \<ge> capacity then 2 else 1)
            + (length out - length l1 + doublings c1 (length out))"
      proof (cases "int (length lines) \<ge> capacity")
        case True
        with "1.prems"(3) have "capacity = int (length lines)" by simp
        with lt have "capacity < int (length out)" by simp
        with "1.prems"(2) have "doublings capacity (length out) = Suc (doublings (capacity * 2) (length out))"
          by (rule doublings_full)
        with True st(2) d show ?thesis by simp
      next
        case False
        with st(2) d show ?thesis by simp
      qed
      with st(1) [of "length out - length l1 + doublings c1 (length out)"] ih(2)
      have "False \<notin> set (take (length out - length lines + doublings capacity (length out)) allocs)"
        by auto
      with le show ?thesis by blast
    qed
  qed
qed

lemma read_lines_allocs:
  assumes "read_lines fs filename allocs = Some (0, out)"
  shows "False \<notin> set (take (allocations (length out)) allocs)"
proof -
  from assms obtain content where c: "fs filename = Some content"
    by (cases "fs filename") (simp_all add: read_lines_def)
  obtain b1 a1 where a1: "alloc allocs = (b1, a1)" by fastforce
  with assms c have b: "b1" and r: "read_lines_loop content a1 INITIAL_CAPACITY [] = Some (0, out)"
    by (auto simp: read_lines_def split: bool.splits)
  from read_lines_loop_allocs [OF r]
  have "False \<notin> set (take (length out + doublings INITIAL_CAPACITY (length out)) a1)"
    by (simp add: INITIAL_CAPACITY_def)
  with alloc_take [of allocs a1 "length out + doublings INITIAL_CAPACITY (length out)"] a1 b
  show ?thesis by (auto simp: allocations_def)
qed

lemma read_lines_same:
  assumes "read_lines fs filename allocs1 = Some (0, lines1)"
    and "read_lines fs filename allocs2 = Some (0, lines2)"
  shows "lines1 = lines2"
proof -
  from assms(1) obtain content where c: "fs filename = Some content"
    by (cases "fs filename") (simp_all add: read_lines_def)
  obtain b1 a1 where a1: "alloc allocs1 = (b1, a1)" by fastforce
  obtain b2 a2 where a2: "alloc allocs2 = (b2, a2)" by fastforce
  from c assms(1) a1 have "read_lines_loop content a1 INITIAL_CAPACITY [] = Some (0, lines1)"
    by (cases b1) (simp_all add: read_lines_def)
  moreover from c assms(2) a2 have "read_lines_loop content a2 INITIAL_CAPACITY [] = Some (0, lines2)"
    by (cases b2) (simp_all add: read_lines_def)
  ultimately show ?thesis by (rule read_lines_loop_same)
qed

lemma read_lines_alloc_failure:
  assumes "\<forall>content. fs filename = Some content \<longrightarrow> length content < 2 ^ 30"
    and "read_lines fs filename [] = Some (0, lines)"
    and "False \<in> set (take (allocations (length lines)) allocs)"
  shows "\<exists>out. read_lines fs filename allocs = Some (- 2, out)"
proof -
  from read_lines_returns [of fs filename allocs, OF assms(1)]
  obtain rc out where r: "read_lines fs filename allocs = Some (rc, out)"
    and rc: "rc = 0 \<or> rc = - 1 \<or> rc = - 2" and op: "rc = - 1 \<longleftrightarrow> fs filename = None"
    by auto
  from assms(2) have "fs filename \<noteq> None" by (cases "fs filename") (simp_all add: read_lines_def)
  with op have n1: "rc \<noteq> - 1" by simp
  have "rc \<noteq> 0"
  proof
    assume z: "rc = 0"
    with r have r0: "read_lines fs filename allocs = Some (0, out)" by simp
    have "out = lines" using r0 assms(2) by (rule read_lines_same)
    with read_lines_allocs [OF r0] assms(3) show False by simp
  qed
  with rc n1 r show ?thesis by auto
qed

lemma allocations_small: "k \<le> 100 \<Longrightarrow> allocations k = Suc k"
  by (simp add: allocations_def INITIAL_CAPACITY_def doublings.simps [of 100 k])
section \<open>Properties of \<^verbatim>\<open>main\<close>\<close>

lemma print_winners_eq:
  "i + k = n \<Longrightarrow> n \<le> length lines \<Longrightarrow>
   print_winners lines (int n) (int i) out
     = Some (out @ concat (map (\<lambda>j. winner_line (int j + 1) (lines ! j)) [i..<n]))"
proof (induction k arbitrary: i out)
  case 0
  then show ?case by (subst print_winners.simps) simp
next
  case (Suc k)
  then have lt: "i < n" and b: "in_bounds lines (int i)" by (simp_all add: in_bounds_def)
  have u: "[i..<n] = i # [Suc i..<n]" using lt by (rule upt_conv_Cons)
  have "print_winners lines (int n) (int i) out
      = print_winners lines (int n) (int (Suc i)) (out @ winner_line (int i + 1) (lines ! i))"
    using lt b by (subst print_winners.simps [of lines "int n" "int i"]) (simp add: add.commute)
  also have "\<dots> = Some ((out @ winner_line (int i + 1) (lines ! i))
      @ concat (map (\<lambda>j. winner_line (int j + 1) (lines ! j)) [Suc i..<n]))"
    using Suc.prems by (intro Suc.IH) simp_all
  finally show ?case using u by simp
qed

lemma main_usage:
  "argv \<noteq> [] \<Longrightarrow> length argv \<noteq> 3 \<Longrightarrow>
   main argv fs allocs rnd = Some \<lparr>exit_code = 1, stdout = print_usage (argv ! 0), stderr = []\<rparr>"
  by (simp add: main_def)

lemma main_run:
  assumes "length argv = 3"
    and "read_lines fs (argv ! 1) allocs = Some (rc, lines)"
    and "shuffle rnd lines (int (length lines)) = Some shuffled"
    and "length shuffled = length lines"
  shows "main argv fs allocs rnd = Some
     (if atoi (argv ! 2) \<le> 0 then failure msg_not_positive
      else if rc = - 1 then failure (msg_open_failed (argv ! 1))
      else if rc = - 2 then failure msg_no_memory
      else if lines = [] then failure (msg_no_nicknames (argv ! 1))
      else if atoi (argv ! 2) > int (length lines) then
        failure (msg_too_many (atoi (argv ! 2)) (int (length lines)))
      else success (atoi (argv ! 2)) shuffled)"
proof -
  have ne: "argv \<noteq> []" using assms(1) by auto
  have pw: "print_winners shuffled n 0 out
      = Some (out @ concat (map (\<lambda>j. winner_line (int j + 1) (shuffled ! j)) [0..<nat n]))"
    if "0 < n" and "n \<le> int (length lines)" for out n
  proof -
    have "print_winners shuffled (int (nat n)) (int 0) out
      = Some (out @ concat (map (\<lambda>j. winner_line (int j + 1) (shuffled ! j)) [0..<nat n]))"
      using that assms(4) by (intro print_winners_eq [of 0 "nat n"]) simp_all
    with that show ?thesis by simp
  qed
  show ?thesis
    using assms ne pw by (simp add: main_def success_def Let_def)
qed

lemma main_early:
  assumes "length argv = 3" and "atoi (argv ! 2) \<le> 0"
  shows "main argv fs allocs rnd = Some (failure msg_not_positive)"
  using assms by (auto simp: main_def Let_def)

lemma shuffle_total:
  "\<exists>shuffled. shuffle rnd lines (int (length lines)) = Some shuffled \<and> length shuffled = length lines"
  using shuffle_swaps [of "length lines" lines rnd] by simp

text \<open>
  The runs of \<open>main\<close>, one case for each \<^verbatim>\<open>return\<close> of lines 99-181. The winner
  count is the \<^verbatim>\<open>int\<close> that \<open>atoi\<close> returns for the second argument.
\<close>

lemma main_cases:
  assumes "argv \<noteq> []"
    and "length argv = 3 \<and> 0 < atoi (argv ! 2) \<longrightarrow>
           (\<forall>content. fs (argv ! 1) = Some content \<longrightarrow> length content < 2 ^ 30)"
  obtains
    (usage) "length argv \<noteq> 3"
      and "main argv fs allocs rnd = Some \<lparr>exit_code = 1, stdout = print_usage (argv ! 0), stderr = []\<rparr>"
  | (not_positive) "length argv = 3" and "atoi (argv ! 2) \<le> 0"
      and "main argv fs allocs rnd = Some (failure msg_not_positive)"
  | (open_failed) "length argv = 3" and "0 < atoi (argv ! 2)"
      and "fs (argv ! 1) = None" and "read_lines fs (argv ! 1) allocs = Some (- 1, [])"
      and "main argv fs allocs rnd = Some (failure (msg_open_failed (argv ! 1)))"
  | (no_memory) lines where "length argv = 3" and "0 < atoi (argv ! 2)"
      and "fs (argv ! 1) \<noteq> None" and "read_lines fs (argv ! 1) allocs = Some (- 2, lines)"
      and "main argv fs allocs rnd = Some (failure msg_no_memory)"
  | (empty) "length argv = 3" and "0 < atoi (argv ! 2)"
      and "fs (argv ! 1) \<noteq> None" and "read_lines fs (argv ! 1) allocs = Some (0, [])"
      and "main argv fs allocs rnd = Some (failure (msg_no_nicknames (argv ! 1)))"
  | (too_many) lines where "length argv = 3" and "0 < atoi (argv ! 2)"
      and "fs (argv ! 1) \<noteq> None" and "read_lines fs (argv ! 1) allocs = Some (0, lines)"
      and "lines \<noteq> []" and "int (length lines) < atoi (argv ! 2)"
      and "main argv fs allocs rnd = Some (failure (msg_too_many (atoi (argv ! 2)) (int (length lines))))"
  | (winners) lines shuffled where "length argv = 3" and "0 < atoi (argv ! 2)"
      and "fs (argv ! 1) \<noteq> None" and "read_lines fs (argv ! 1) allocs = Some (0, lines)"
      and "lines \<noteq> []" and "atoi (argv ! 2) \<le> int (length lines)"
      and "shuffle rnd lines (int (length lines)) = Some shuffled"
      and "length shuffled = length lines"
      and "main argv fs allocs rnd = Some (success (atoi (argv ! 2)) shuffled)"
proof (cases "length argv = 3")
  case False
  with assms(1) usage show ?thesis by (simp add: main_usage)
next
  case True
  let ?n = "atoi (argv ! 2)"
  show ?thesis
  proof (cases "?n \<le> 0")
    case True
    with \<open>length argv = 3\<close> not_positive show ?thesis by (simp add: main_early)
  next
    case False
    then have pos: "0 < ?n" by simp
    with True assms(2) have small: "\<forall>content. fs (argv ! 1) = Some content \<longrightarrow> length content < 2 ^ 30"
      by simp
    from read_lines_returns [of fs "argv ! 1" allocs, OF small]
    obtain rc lines where rl: "read_lines fs (argv ! 1) allocs = Some (rc, lines)"
      and rc: "rc = 0 \<or> rc = - 1 \<or> rc = - 2" and op: "rc = - 1 \<longleftrightarrow> fs (argv ! 1) = None"
      by auto
    obtain shuffled where sh: "shuffle rnd lines (int (length lines)) = Some shuffled"
      and ln: "length shuffled = length lines"
      using shuffle_total by blast
    note m = main_run [OF \<open>length argv = 3\<close> rl sh ln]
    consider "rc = - 1" | "rc = - 2" | "rc = 0" "lines = []" | "rc = 0" "lines \<noteq> []" "int (length lines) < ?n"
      | "rc = 0" "lines \<noteq> []" "?n \<le> int (length lines)"
      using rc by linarith
    then show ?thesis
    proof cases
      case 1
      with op have none: "fs (argv ! 1) = None" by simp
      then have "read_lines fs (argv ! 1) allocs = Some (- 1, [])" by (simp add: read_lines_def)
      with 1 none m pos \<open>length argv = 3\<close> open_failed show ?thesis by simp
    next
      case 2
      with op m pos rl \<open>length argv = 3\<close> no_memory show ?thesis by simp
    next
      case 3
      with op m pos rl \<open>length argv = 3\<close> empty show ?thesis by simp
    next
      case 4
      with op m pos rl \<open>length argv = 3\<close> too_many show ?thesis by simp
    next
      case 5
      with op m pos rl sh ln \<open>length argv = 3\<close> winners show ?thesis by simp
    qed
  qed
qed

text \<open>The texts the program writes, byte by byte.\<close>

lemma printf_d_nat: "0 \<le> i \<Longrightarrow> printf_d i = decimal (nat i)"
  by (simp add: printf_d_def)

lemma print_usage_text:
  "print_usage program_name =
     ''Usage: '' @ program_name @ '' <input_file> <number_of_winners>'' @ [CHR 0x0A] @
     [CHR 0x0A] @
     ''Arguments:'' @ [CHR 0x0A] @
     ''  input_file        Path to text file with one nickname per line'' @ [CHR 0x0A] @
     ''  number_of_winners Number of random winners to select'' @ [CHR 0x0A] @
     [CHR 0x0A] @
     ''Example:'' @ [CHR 0x0A] @
     ''  '' @ program_name @ '' participants.txt 3'' @ [CHR 0x0A]"
  by (simp add: print_usage_def LF_def)

lemma failure_not_positive:
  "failure msg_not_positive =
     \<lparr>exit_code = 1, stdout = [],
      stderr = ''Error: Number of winners must be a positive integer.'' @ [CHR 0x0A]\<rparr>"
  by (simp add: failure_def msg_not_positive_def LF_def)

lemma failure_open_failed:
  "failure (msg_open_failed filename) =
     \<lparr>exit_code = 1, stdout = [],
      stderr = ''Error: Could not open file '' @ [CHR 0x27] @ filename @ [CHR 0x27] @
        ''. Please check the file path.'' @ [CHR 0x0A]\<rparr>"
  by (simp add: failure_def msg_open_failed_def LF_def)

lemma failure_no_memory:
  "failure msg_no_memory =
     \<lparr>exit_code = 1, stdout = [], stderr = ''Error: Memory allocation failed.'' @ [CHR 0x0A]\<rparr>"
  by (simp add: failure_def msg_no_memory_def LF_def)

lemma failure_no_nicknames:
  "failure (msg_no_nicknames filename) =
     \<lparr>exit_code = 1, stdout = [],
      stderr = ''Error: The file '' @ [CHR 0x27] @ filename @ [CHR 0x27] @
        '' contains no valid nicknames.'' @ [CHR 0x0A]\<rparr>"
  by (simp add: failure_def msg_no_nicknames_def LF_def)

lemma failure_too_many:
  "0 < n \<Longrightarrow> failure (msg_too_many n (int k)) =
     \<lparr>exit_code = 1, stdout = [],
      stderr = ''Error: Cannot select '' @ decimal (nat n) @ '' winners from only '' @ decimal k @
        '' participants.'' @ [CHR 0x0A] @
        ''Please reduce the number of winners or add more participants to the file.'' @ [CHR 0x0A]\<rparr>"
  by (simp add: failure_def msg_too_many_def LF_def printf_d_nat)

lemma success_text:
  "0 < n \<Longrightarrow> success n shuffled =
     \<lparr>exit_code = 0,
      stdout = [CHR 0xC3, CHR 0xB0, CHR 0xC5, CHR 0xB8, CHR 0xC5, CHR 0xBD, CHR 0xE2, CHR 0x80, CHR 0xB0] @
        '' Randomly selected '' @ decimal (nat n) @ '' winner(s) from '' @ decimal (length shuffled) @
        '' participants:'' @ [CHR 0x0A, CHR 0x0A] @
        concat (map (\<lambda>k. ''  '' @ decimal (Suc k) @ ''. '' @ shuffled ! k @ [CHR 0x0A]) [0..<nat n]) @
        [CHR 0x0A],
      stderr = []\<rparr>"
proof -
  have w: "winner_line (int k + 1) s = ''  '' @ decimal (Suc k) @ ''. '' @ s @ [CHR 0x0A]" for k s
  proof -
    have "nat (int k + 1) = Suc k" by simp
    then show ?thesis by (simp add: winner_line_def LF_def printf_d_def)
  qed
  assume "0 < n"
  then show ?thesis
    by (simp add: success_def header_def LF_def printf_d_nat w)
qed

lemma main_alloc_failure:
  assumes "length argv = 3" and "0 < atoi (argv ! 2)"
    and "length argv = 3 \<and> 0 < atoi (argv ! 2) \<longrightarrow>
           (\<forall>content. fs (argv ! 1) = Some content \<longrightarrow> length content < 2 ^ 30)"
    and "read_lines fs (argv ! 1) [] = Some (0, lines)"
    and "False \<in> set (take (allocations (length lines)) allocs)"
  shows "\<exists>out. read_lines fs (argv ! 1) allocs = Some (- 2, out)"
proof -
  from assms(1-3) have "\<forall>content. fs (argv ! 1) = Some content \<longrightarrow> length content < 2 ^ 30"
    by simp
  then show ?thesis using assms(4,5) by (rule read_lines_alloc_failure)
qed

text \<open>
  Claim C4, as amended. A run is defined whenever the program has a name (\<^verbatim>\<open>argc\<close> is
  at least 1) and the file it reads is shorter than \<open>2 ^ 30\<close> bytes. Its exit code is 0
  or 1. The winner count is the \<^verbatim>\<open>int\<close> that \<open>atoi\<close> returns for the second argument.
  The exit code is 0 exactly when there are three arguments, the winner count is
  positive, \<open>read_lines\<close> returns 0 with a non-empty list, and the winner count is at
  most the number of participants; standard output then holds the header with the two
  numbers, a blank line, one numbered line for each of the first entries of the shuffled
  list, and a blank line, and standard error is empty. The exit code is 1 in each of the
  six cases: wrong argument count (standard output is the usage text), non-positive
  winner count, file that does not open, failed allocation (\<open>read_lines\<close> returns -2,
  which it does when one of the \<open>allocations k\<close> allocation calls of the load fails,
  \<open>k\<close> being the number of entries of the file), no usable line, winner count above
  the number of participants.
\<close>

theorem main_exit_code:
  assumes "argv \<noteq> []"
    and "length argv = 3 \<and> 0 < atoi (argv ! 2) \<longrightarrow>
           (\<forall>content. fs (argv ! 1) = Some content \<longrightarrow> length content < 2 ^ 30)"
  shows "\<exists>r. main argv fs allocs rnd = Some r \<and>
     (exit_code r = 0 \<or> exit_code r = 1) \<and>
     (exit_code r = 0 \<longleftrightarrow>
        length argv = 3 \<and> 0 < atoi (argv ! 2) \<and>
        (\<exists>lines. read_lines fs (argv ! 1) allocs = Some (0, lines) \<and> lines \<noteq> [] \<and>
           atoi (argv ! 2) \<le> int (length lines))) \<and>
     (exit_code r = 0 \<longrightarrow>
        (\<exists>lines shuffled. read_lines fs (argv ! 1) allocs = Some (0, lines) \<and>
           shuffle rnd lines (int (length lines)) = Some shuffled \<and>
           stdout r =
             [CHR 0xC3, CHR 0xB0, CHR 0xC5, CHR 0xB8, CHR 0xC5, CHR 0xBD, CHR 0xE2, CHR 0x80, CHR 0xB0] @
             '' Randomly selected '' @ decimal (nat (atoi (argv ! 2))) @ '' winner(s) from '' @
             decimal (length lines) @ '' participants:'' @ [CHR 0x0A, CHR 0x0A] @
             concat (map (\<lambda>k. ''  '' @ decimal (Suc k) @ ''. '' @ shuffled ! k @ [CHR 0x0A])
               [0..<nat (atoi (argv ! 2))]) @
             [CHR 0x0A] \<and>
           stderr r = [])) \<and>
     (length argv \<noteq> 3 \<longrightarrow>
        exit_code r = 1 \<and>
        stdout r =
          ''Usage: '' @ argv ! 0 @ '' <input_file> <number_of_winners>'' @ [CHR 0x0A] @
          [CHR 0x0A] @
          ''Arguments:'' @ [CHR 0x0A] @
          ''  input_file        Path to text file with one nickname per line'' @ [CHR 0x0A] @
          ''  number_of_winners Number of random winners to select'' @ [CHR 0x0A] @
          [CHR 0x0A] @
          ''Example:'' @ [CHR 0x0A] @
          ''  '' @ argv ! 0 @ '' participants.txt 3'' @ [CHR 0x0A]) \<and>
     (length argv = 3 \<and> atoi (argv ! 2) \<le> 0 \<longrightarrow> exit_code r = 1) \<and>
     (length argv = 3 \<and> fs (argv ! 1) = None \<longrightarrow> exit_code r = 1) \<and>
     (length argv = 3 \<and> (\<exists>lines. read_lines fs (argv ! 1) allocs = Some (- 2, lines)) \<longrightarrow>
        exit_code r = 1) \<and>
     (length argv = 3 \<and>
        (\<exists>lines. read_lines fs (argv ! 1) [] = Some (0, lines) \<and>
           False \<in> set (take (allocations (length lines)) allocs)) \<longrightarrow>
        exit_code r = 1) \<and>
     (length argv = 3 \<and> read_lines fs (argv ! 1) allocs = Some (0, []) \<longrightarrow> exit_code r = 1) \<and>
     (length argv = 3 \<and>
        (\<exists>lines. read_lines fs (argv ! 1) allocs = Some (0, lines) \<and>
           int (length lines) < atoi (argv ! 2)) \<longrightarrow>
        exit_code r = 1)"
proof -
  have af: "\<exists>out. read_lines fs (argv ! 1) allocs = Some (- 2, out)"
    if "length argv = 3" and "0 < atoi (argv ! 2)"
      and "read_lines fs (argv ! 1) [] = Some (0, lines)"
      and "False \<in> set (take (allocations (length lines)) allocs)" for lines
    using that(1,2) assms(2) that(3,4) by (rule main_alloc_failure)
  from assms show ?thesis
  proof (cases rule: main_cases [where allocs = allocs and rnd = rnd])
    case usage
    then show ?thesis by (simp add: print_usage_text)
  next
    case not_positive
    then show ?thesis by (simp add: failure_def)
  next
    case open_failed
    then show ?thesis by (simp add: failure_def)
  next
    case (no_memory lines)
    then show ?thesis by (auto simp: failure_def)
  next
    case empty
    then show ?thesis using af by (auto simp: failure_def)
  next
    case (too_many lines)
    then show ?thesis using af by (auto simp: failure_def)
  next
    case (winners lines shuffled)
    have "\<not> (\<exists>lines0. read_lines fs (argv ! 1) [] = Some (0, lines0) \<and>
           False \<in> set (take (allocations (length lines0)) allocs))"
      using af [OF winners(1,2)] winners(4) by auto
    moreover note success_text [OF winners(2), of shuffled]
    ultimately show ?thesis using winners by auto
  qed
qed

theorem main_exit_code_witness:
  "[''rw'', ''p.txt'', ''2''] \<noteq> [] \<and>
   length (''alice'' @ [CHR 0x0A, CHR 0x0A] @ ''bob'' @ [CHR 0x0D, CHR 0x0A] @ ''carol'' @ [CHR 0x0A]) < (2::nat) ^ 30 \<and>
   main [''rw'', ''p.txt'', ''2'']
     (\<lambda>name. if name = ''p.txt''
        then Some (''alice'' @ [CHR 0x0A, CHR 0x0A] @ ''bob'' @ [CHR 0x0D, CHR 0x0A] @ ''carol'' @ [CHR 0x0A])
        else if name = ''e.txt'' then Some [CHR 0x0A] else None)
     [] (\<lambda>i. [5, 7] ! i)
     = Some \<lparr>exit_code = 0,
         stdout = [CHR 0xC3, CHR 0xB0, CHR 0xC5, CHR 0xB8, CHR 0xC5, CHR 0xBD, CHR 0xE2, CHR 0x80, CHR 0xB0] @
           '' Randomly selected 2 winner(s) from 3 participants:'' @ [CHR 0x0A, CHR 0x0A] @
           ''  1. carol'' @ [CHR 0x0A] @ ''  2. alice'' @ [CHR 0x0A] @ [CHR 0x0A],
         stderr = []\<rparr> \<and>
   main [''rw'', ''p.txt'']
     (\<lambda>name. if name = ''p.txt''
        then Some (''alice'' @ [CHR 0x0A, CHR 0x0A] @ ''bob'' @ [CHR 0x0D, CHR 0x0A] @ ''carol'' @ [CHR 0x0A])
        else if name = ''e.txt'' then Some [CHR 0x0A] else None)
     [] (\<lambda>i. [5, 7] ! i)
     = Some \<lparr>exit_code = 1,
         stdout = ''Usage: rw <input_file> <number_of_winners>'' @ [CHR 0x0A] @ [CHR 0x0A] @
           ''Arguments:'' @ [CHR 0x0A] @
           ''  input_file        Path to text file with one nickname per line'' @ [CHR 0x0A] @
           ''  number_of_winners Number of random winners to select'' @ [CHR 0x0A] @ [CHR 0x0A] @
           ''Example:'' @ [CHR 0x0A] @
           ''  rw participants.txt 3'' @ [CHR 0x0A],
         stderr = []\<rparr> \<and>
   map_option exit_code (main [''rw'', ''p.txt'', ''0'']
     (\<lambda>name. if name = ''p.txt''
        then Some (''alice'' @ [CHR 0x0A, CHR 0x0A] @ ''bob'' @ [CHR 0x0D, CHR 0x0A] @ ''carol'' @ [CHR 0x0A])
        else if name = ''e.txt'' then Some [CHR 0x0A] else None)
     [] (\<lambda>i. [5, 7] ! i)) = Some 1 \<and>
   map_option exit_code (main [''rw'', ''q.txt'', ''2'']
     (\<lambda>name. if name = ''p.txt''
        then Some (''alice'' @ [CHR 0x0A, CHR 0x0A] @ ''bob'' @ [CHR 0x0D, CHR 0x0A] @ ''carol'' @ [CHR 0x0A])
        else if name = ''e.txt'' then Some [CHR 0x0A] else None)
     [] (\<lambda>i. [5, 7] ! i)) = Some 1 \<and>
   map_option exit_code (main [''rw'', ''p.txt'', ''2'']
     (\<lambda>name. if name = ''p.txt''
        then Some (''alice'' @ [CHR 0x0A, CHR 0x0A] @ ''bob'' @ [CHR 0x0D, CHR 0x0A] @ ''carol'' @ [CHR 0x0A])
        else if name = ''e.txt'' then Some [CHR 0x0A] else None)
     [True, True, False] (\<lambda>i. [5, 7] ! i)) = Some 1 \<and>
   map_option exit_code (main [''rw'', ''e.txt'', ''2'']
     (\<lambda>name. if name = ''p.txt''
        then Some (''alice'' @ [CHR 0x0A, CHR 0x0A] @ ''bob'' @ [CHR 0x0D, CHR 0x0A] @ ''carol'' @ [CHR 0x0A])
        else if name = ''e.txt'' then Some [CHR 0x0A] else None)
     [] (\<lambda>i. [5, 7] ! i)) = Some 1 \<and>
   map_option exit_code (main [''rw'', ''p.txt'', ''12'']
     (\<lambda>name. if name = ''p.txt''
        then Some (''alice'' @ [CHR 0x0A, CHR 0x0A] @ ''bob'' @ [CHR 0x0D, CHR 0x0A] @ ''carol'' @ [CHR 0x0A])
        else if name = ''e.txt'' then Some [CHR 0x0A] else None)
     [] (\<lambda>i. [5, 7] ! i)) = Some 1 \<and>
   allocations 3 = 4 \<and> allocations 101 = 103 \<and>
   map_option exit_code (main [''rw'', ''p.txt'', ''2'']
     (\<lambda>name. Some (concat (replicate 101 (''a'' @ [CHR 0x0A]))))
     (replicate 101 True @ [False]) (\<lambda>i. [5, 7] ! i)) = Some 1"
proof -
  let ?c = "''alice'' @ [CHR 0x0A, CHR 0x0A] @ ''bob'' @ [CHR 0x0D, CHR 0x0A] @ ''carol'' @ [CHR 0x0A]"
  let ?fs = "\<lambda>name. if name = ''p.txt'' then Some ?c else if name = ''e.txt'' then Some [CHR 0x0A] else None"
  let ?rnd = "\<lambda>i. [5, 7] ! i"
  let ?argv = "[''rw'', ''p.txt'', ''2'']"
  let ?out = "\<lparr>exit_code = 0,
         stdout = [CHR 0xC3, CHR 0xB0, CHR 0xC5, CHR 0xB8, CHR 0xC5, CHR 0xBD, CHR 0xE2, CHR 0x80, CHR 0xB0] @
           '' Randomly selected 2 winner(s) from 3 participants:'' @ [CHR 0x0A, CHR 0x0A] @
           ''  1. carol'' @ [CHR 0x0A] @ ''  2. alice'' @ [CHR 0x0A] @ [CHR 0x0A],
         stderr = []\<rparr>"
  have h1: "?argv \<noteq> []" by simp
  have s: "length ?c < (2::nat) ^ 30" by simp
  have h2: "length ?argv = 3 \<and> 0 < atoi (?argv ! 2) \<longrightarrow>
      (\<forall>content. ?fs (?argv ! 1) = Some content \<longrightarrow> length content < 2 ^ 30)"
    by simp
  have u: "main [''rw'', ''p.txt''] ?fs [] ?rnd
     = Some \<lparr>exit_code = 1,
         stdout = ''Usage: rw <input_file> <number_of_winners>'' @ [CHR 0x0A] @ [CHR 0x0A] @
           ''Arguments:'' @ [CHR 0x0A] @
           ''  input_file        Path to text file with one nickname per line'' @ [CHR 0x0A] @
           ''  number_of_winners Number of random winners to select'' @ [CHR 0x0A] @ [CHR 0x0A] @
           ''Example:'' @ [CHR 0x0A] @
           ''  rw participants.txt 3'' @ [CHR 0x0A],
         stderr = []\<rparr>"
    by code_simp
  have e1: "map_option exit_code (main [''rw'', ''p.txt'', ''0''] ?fs [] ?rnd) = Some 1" by code_simp
  have e2: "map_option exit_code (main [''rw'', ''q.txt'', ''2''] ?fs [] ?rnd) = Some 1" by code_simp
  have e3: "map_option exit_code (main ?argv ?fs [True, True, False] ?rnd) = Some 1" by code_simp
  have e4: "map_option exit_code (main [''rw'', ''e.txt'', ''2''] ?fs [] ?rnd) = Some 1" by code_simp
  have e5: "map_option exit_code (main [''rw'', ''p.txt'', ''12''] ?fs [] ?rnd) = Some 1" by code_simp
  have e6: "allocations 3 = 4" "allocations 101 = 103" by code_simp+
  have e7: "map_option exit_code (main [''rw'', ''p.txt'', ''2'']
     (\<lambda>name. Some (concat (replicate 101 (''a'' @ [CHR 0x0A]))))
     (replicate 101 True @ [False]) ?rnd) = Some 1"
    by code_simp
  have a: "atoi ''2'' = 2" by code_simp
  have rl: "read_lines ?fs ''p.txt'' [] = Some (0, [''alice'', ''bob'', ''carol''])" by code_simp
  have sh: "shuffle ?rnd [''alice'', ''bob'', ''carol''] 3 = Some [''carol'', ''alice'', ''bob'']"
    by code_simp
  have d: "decimal (Suc 0) = ''1''" "decimal 2 = ''2''" "decimal (Suc (Suc 0)) = ''2''"
    "decimal (Suc (Suc (Suc 0))) = ''3''"
    by code_simp+
  from main_exit_code [of ?argv ?fs "[]" ?rnd, OF h1 h2]
  obtain r where r: "main ?argv ?fs [] ?rnd = Some r"
    and ok: "exit_code r = 0 \<longleftrightarrow>
        length ?argv = 3 \<and> 0 < atoi (?argv ! 2) \<and>
        (\<exists>lines. read_lines ?fs (?argv ! 1) [] = Some (0, lines) \<and> lines \<noteq> [] \<and>
           atoi (?argv ! 2) \<le> int (length lines))"
    and out: "exit_code r = 0 \<longrightarrow>
        (\<exists>lines shuffled. read_lines ?fs (?argv ! 1) [] = Some (0, lines) \<and>
           shuffle ?rnd lines (int (length lines)) = Some shuffled \<and>
           stdout r =
             [CHR 0xC3, CHR 0xB0, CHR 0xC5, CHR 0xB8, CHR 0xC5, CHR 0xBD, CHR 0xE2, CHR 0x80, CHR 0xB0] @
             '' Randomly selected '' @ decimal (nat (atoi (?argv ! 2))) @ '' winner(s) from '' @
             decimal (length lines) @ '' participants:'' @ [CHR 0x0A, CHR 0x0A] @
             concat (map (\<lambda>k. ''  '' @ decimal (Suc k) @ ''. '' @ shuffled ! k @ [CHR 0x0A])
               [0..<nat (atoi (?argv ! 2))]) @
             [CHR 0x0A] \<and>
           stderr r = [])"
    by (elim exE conjE) (rule that, assumption+)
  have z: "exit_code r = 0" using ok a rl by simp
  with out obtain lines shuffled where l: "read_lines ?fs (?argv ! 1) [] = Some (0, lines)"
    and f: "shuffle ?rnd lines (int (length lines)) = Some shuffled"
    and o: "stdout r =
             [CHR 0xC3, CHR 0xB0, CHR 0xC5, CHR 0xB8, CHR 0xC5, CHR 0xBD, CHR 0xE2, CHR 0x80, CHR 0xB0] @
             '' Randomly selected '' @ decimal (nat (atoi (?argv ! 2))) @ '' winner(s) from '' @
             decimal (length lines) @ '' participants:'' @ [CHR 0x0A, CHR 0x0A] @
             concat (map (\<lambda>k. ''  '' @ decimal (Suc k) @ ''. '' @ shuffled ! k @ [CHR 0x0A])
               [0..<nat (atoi (?argv ! 2))]) @
             [CHR 0x0A]"
    and e: "stderr r = []"
    by (elim impE exE conjE) (assumption, rule that, assumption+)
  from l rl have l3: "lines = [''alice'', ''bob'', ''carol'']" by simp
  with f sh have s3: "shuffled = [''carol'', ''alice'', ''bob'']" by simp
  have u2: "[0..<2] = [0, Suc 0]" by code_simp
  have "stdout r = stdout ?out" unfolding o l3 s3 by (simp add: a d u2)
  with z e have "r = ?out" by simp
  with r have "main ?argv ?fs [] ?rnd = Some ?out" by simp
  with h1 s u e1 e2 e3 e4 e5 e6 e7 show ?thesis by blast
qed

text \<open>
  The claim as stated fails for a requested number of winners that is not an \<^verbatim>\<open>int\<close>:
  4294967298 winners requested from three participants are read as 2, and the run
  prints two winners and exits with 0.
\<close>

theorem main_winner_count_wraps:
  "read_lines (\<lambda>name. Some (''alice'' @ [CHR 0x0A] @ ''bob'' @ [CHR 0x0A] @ ''carol'' @ [CHR 0x0A]))
     ''p.txt'' [] = Some (0, [''alice'', ''bob'', ''carol'']) \<and>
   main [''rw'', ''p.txt'', ''4294967298'']
     (\<lambda>name. Some (''alice'' @ [CHR 0x0A] @ ''bob'' @ [CHR 0x0A] @ ''carol'' @ [CHR 0x0A]))
     [] (\<lambda>i. 0)
     = Some \<lparr>exit_code = 0,
         stdout = [CHR 0xC3, CHR 0xB0, CHR 0xC5, CHR 0xB8, CHR 0xC5, CHR 0xBD, CHR 0xE2, CHR 0x80, CHR 0xB0] @
           '' Randomly selected 2 winner(s) from 3 participants:'' @ [CHR 0x0A, CHR 0x0A] @
           ''  1. alice'' @ [CHR 0x0A] @ ''  2. bob'' @ [CHR 0x0A] @ [CHR 0x0A],
         stderr = []\<rparr>"
proof -
  have a: "read_lines (\<lambda>name. Some (''alice'' @ [CHR 0x0A] @ ''bob'' @ [CHR 0x0A] @ ''carol'' @ [CHR 0x0A]))
     ''p.txt'' [] = Some (0, [''alice'', ''bob'', ''carol''])"
    by code_simp
  have b: "main [''rw'', ''p.txt'', ''4294967298'']
     (\<lambda>name. Some (''alice'' @ [CHR 0x0A] @ ''bob'' @ [CHR 0x0A] @ ''carol'' @ [CHR 0x0A]))
     [] (\<lambda>i. 0)
     = Some \<lparr>exit_code = 0,
         stdout = [CHR 0xC3, CHR 0xB0, CHR 0xC5, CHR 0xB8, CHR 0xC5, CHR 0xBD, CHR 0xE2, CHR 0x80, CHR 0xB0] @
           '' Randomly selected 2 winner(s) from 3 participants:'' @ [CHR 0x0A, CHR 0x0A] @
           ''  1. alice'' @ [CHR 0x0A] @ ''  2. bob'' @ [CHR 0x0A] @ [CHR 0x0A],
         stderr = []\<rparr>"
    by code_simp
  from a b show ?thesis by blast
qed

text \<open>
  Claim C7, as amended. The errors are the six conditions that \<open>main\<close> tests before
  the shuffle, the winner count being the \<^verbatim>\<open>int\<close> that \<open>atoi\<close> returns for the second
  argument. On each of them the run is the one stated: exit code 1; for a wrong
  argument count the usage text on standard output and nothing on standard error;
  for the other five nothing on standard output and, on standard error, the one
  message of that error (two lines for a winner count above the number of
  participants). Every run with a non-zero exit code is one of these.
\<close>

theorem main_error_terminal:
  assumes "argv \<noteq> []"
    and "length argv = 3 \<and> 0 < atoi (argv ! 2) \<longrightarrow>
           (\<forall>content. fs (argv ! 1) = Some content \<longrightarrow> length content < 2 ^ 30)"
  shows "\<exists>r. main argv fs allocs rnd = Some r \<and>
     (length argv \<noteq> 3 \<longrightarrow>
        r = \<lparr>exit_code = 1,
             stdout =
               ''Usage: '' @ argv ! 0 @ '' <input_file> <number_of_winners>'' @ [CHR 0x0A] @
               [CHR 0x0A] @
               ''Arguments:'' @ [CHR 0x0A] @
               ''  input_file        Path to text file with one nickname per line'' @ [CHR 0x0A] @
               ''  number_of_winners Number of random winners to select'' @ [CHR 0x0A] @
               [CHR 0x0A] @
               ''Example:'' @ [CHR 0x0A] @
               ''  '' @ argv ! 0 @ '' participants.txt 3'' @ [CHR 0x0A],
             stderr = []\<rparr>) \<and>
     (length argv = 3 \<and> atoi (argv ! 2) \<le> 0 \<longrightarrow>
        r = \<lparr>exit_code = 1, stdout = [],
             stderr = ''Error: Number of winners must be a positive integer.'' @ [CHR 0x0A]\<rparr>) \<and>
     (length argv = 3 \<and> 0 < atoi (argv ! 2) \<and> fs (argv ! 1) = None \<longrightarrow>
        r = \<lparr>exit_code = 1, stdout = [],
             stderr = ''Error: Could not open file '' @ [CHR 0x27] @ argv ! 1 @ [CHR 0x27] @
               ''. Please check the file path.'' @ [CHR 0x0A]\<rparr>) \<and>
     (length argv = 3 \<and> 0 < atoi (argv ! 2) \<and>
        ((\<exists>lines. read_lines fs (argv ! 1) allocs = Some (- 2, lines)) \<or>
         (\<exists>lines. read_lines fs (argv ! 1) [] = Some (0, lines) \<and>
            False \<in> set (take (allocations (length lines)) allocs))) \<longrightarrow>
        r = \<lparr>exit_code = 1, stdout = [],
             stderr = ''Error: Memory allocation failed.'' @ [CHR 0x0A]\<rparr>) \<and>
     (length argv = 3 \<and> 0 < atoi (argv ! 2) \<and> read_lines fs (argv ! 1) allocs = Some (0, []) \<longrightarrow>
        r = \<lparr>exit_code = 1, stdout = [],
             stderr = ''Error: The file '' @ [CHR 0x27] @ argv ! 1 @ [CHR 0x27] @
               '' contains no valid nicknames.'' @ [CHR 0x0A]\<rparr>) \<and>
     (\<forall>lines. length argv = 3 \<and> 0 < atoi (argv ! 2) \<and>
        read_lines fs (argv ! 1) allocs = Some (0, lines) \<and> lines \<noteq> [] \<and>
        int (length lines) < atoi (argv ! 2) \<longrightarrow>
        r = \<lparr>exit_code = 1, stdout = [],
             stderr = ''Error: Cannot select '' @ decimal (nat (atoi (argv ! 2))) @
               '' winners from only '' @ decimal (length lines) @ '' participants.'' @ [CHR 0x0A] @
               ''Please reduce the number of winners or add more participants to the file.'' @
               [CHR 0x0A]\<rparr>) \<and>
     (exit_code r \<noteq> 0 \<longrightarrow>
        exit_code r = 1 \<and>
        (length argv \<noteq> 3 \<and> stderr r = [] \<or>
         length argv = 3 \<and> stdout r = [] \<and> stderr r \<noteq> [] \<and>
           (atoi (argv ! 2) \<le> 0 \<or> fs (argv ! 1) = None \<or>
            (\<exists>lines. read_lines fs (argv ! 1) allocs = Some (- 2, lines)) \<or>
            read_lines fs (argv ! 1) allocs = Some (0, []) \<or>
            (\<exists>lines. read_lines fs (argv ! 1) allocs = Some (0, lines) \<and>
               int (length lines) < atoi (argv ! 2)))))"
proof -
  have af: "\<exists>out. read_lines fs (argv ! 1) allocs = Some (- 2, out)"
    if "length argv = 3" and "0 < atoi (argv ! 2)"
      and "read_lines fs (argv ! 1) [] = Some (0, lines)"
      and "False \<in> set (take (allocations (length lines)) allocs)" for lines
    using that(1,2) assms(2) that(3,4) by (rule main_alloc_failure)
  from assms show ?thesis
  proof (cases rule: main_cases [where allocs = allocs and rnd = rnd])
    case usage
    then show ?thesis by (simp add: print_usage_text)
  next
    case not_positive
    then show ?thesis by (simp add: failure_not_positive)
  next
    case open_failed
    then show ?thesis using af by (auto simp: failure_open_failed)
  next
    case (no_memory lines)
    then show ?thesis by (auto simp: failure_no_memory)
  next
    case empty
    then show ?thesis using af by (auto simp: failure_no_nicknames)
  next
    case (too_many lines)
    then show ?thesis using af by (auto simp: failure_too_many)
  next
    case (winners lines shuffled)
    have "\<not> (\<exists>lines0. read_lines fs (argv ! 1) [] = Some (0, lines0) \<and>
           False \<in> set (take (allocations (length lines0)) allocs))"
      using af [OF winners(1,2)] winners(4) by auto
    then show ?thesis using winners by (auto simp: success_def)
  qed
qed

theorem main_error_terminal_witness:
  "[''rw'', ''p.txt'', ''12''] \<noteq> [] \<and>
   length (''alice'' @ [CHR 0x0A] @ ''bob'' @ [CHR 0x0A] @ ''carol'' @ [CHR 0x0A]) < (2::nat) ^ 30 \<and>
   main [''rw'', ''p.txt'', ''12'']
     (\<lambda>name. if name = ''p.txt'' then Some (''alice'' @ [CHR 0x0A] @ ''bob'' @ [CHR 0x0A] @ ''carol'' @ [CHR 0x0A])
        else if name = ''e.txt'' then Some [CHR 0x0D, CHR 0x0A, CHR 0x0A] else None)
     [] (\<lambda>i. 0)
     = Some \<lparr>exit_code = 1, stdout = [],
         stderr = ''Error: Cannot select 12 winners from only 3 participants.'' @ [CHR 0x0A] @
           ''Please reduce the number of winners or add more participants to the file.'' @ [CHR 0x0A]\<rparr> \<and>
   main [''rw'']
     (\<lambda>name. if name = ''p.txt'' then Some (''alice'' @ [CHR 0x0A] @ ''bob'' @ [CHR 0x0A] @ ''carol'' @ [CHR 0x0A])
        else if name = ''e.txt'' then Some [CHR 0x0D, CHR 0x0A, CHR 0x0A] else None)
     [] (\<lambda>i. 0)
     = Some \<lparr>exit_code = 1,
         stdout = ''Usage: rw <input_file> <number_of_winners>'' @ [CHR 0x0A] @ [CHR 0x0A] @
           ''Arguments:'' @ [CHR 0x0A] @
           ''  input_file        Path to text file with one nickname per line'' @ [CHR 0x0A] @
           ''  number_of_winners Number of random winners to select'' @ [CHR 0x0A] @ [CHR 0x0A] @
           ''Example:'' @ [CHR 0x0A] @
           ''  rw participants.txt 3'' @ [CHR 0x0A],
         stderr = []\<rparr> \<and>
   main [''rw'', ''p.txt'', ''-1'']
     (\<lambda>name. if name = ''p.txt'' then Some (''alice'' @ [CHR 0x0A] @ ''bob'' @ [CHR 0x0A] @ ''carol'' @ [CHR 0x0A])
        else if name = ''e.txt'' then Some [CHR 0x0D, CHR 0x0A, CHR 0x0A] else None)
     [] (\<lambda>i. 0)
     = Some \<lparr>exit_code = 1, stdout = [],
         stderr = ''Error: Number of winners must be a positive integer.'' @ [CHR 0x0A]\<rparr> \<and>
   main [''rw'', ''q.txt'', ''1'']
     (\<lambda>name. if name = ''p.txt'' then Some (''alice'' @ [CHR 0x0A] @ ''bob'' @ [CHR 0x0A] @ ''carol'' @ [CHR 0x0A])
        else if name = ''e.txt'' then Some [CHR 0x0D, CHR 0x0A, CHR 0x0A] else None)
     [] (\<lambda>i. 0)
     = Some \<lparr>exit_code = 1, stdout = [],
         stderr = ''Error: Could not open file '' @ [CHR 0x27] @ ''q.txt'' @ [CHR 0x27] @
           ''. Please check the file path.'' @ [CHR 0x0A]\<rparr> \<and>
   main [''rw'', ''p.txt'', ''1'']
     (\<lambda>name. if name = ''p.txt'' then Some (''alice'' @ [CHR 0x0A] @ ''bob'' @ [CHR 0x0A] @ ''carol'' @ [CHR 0x0A])
        else if name = ''e.txt'' then Some [CHR 0x0D, CHR 0x0A, CHR 0x0A] else None)
     [True, True, True, False] (\<lambda>i. 0)
     = Some \<lparr>exit_code = 1, stdout = [],
         stderr = ''Error: Memory allocation failed.'' @ [CHR 0x0A]\<rparr> \<and>
   main [''rw'', ''e.txt'', ''1'']
     (\<lambda>name. if name = ''p.txt'' then Some (''alice'' @ [CHR 0x0A] @ ''bob'' @ [CHR 0x0A] @ ''carol'' @ [CHR 0x0A])
        else if name = ''e.txt'' then Some [CHR 0x0D, CHR 0x0A, CHR 0x0A] else None)
     [] (\<lambda>i. 0)
     = Some \<lparr>exit_code = 1, stdout = [],
         stderr = ''Error: The file '' @ [CHR 0x27] @ ''e.txt'' @ [CHR 0x27] @
           '' contains no valid nicknames.'' @ [CHR 0x0A]\<rparr> \<and>
   main [''rw'', ''p.txt'', ''1''] (\<lambda>name. Some (concat (replicate 101 (''a'' @ [CHR 0x0A]))))
     (replicate 102 True @ [False]) (\<lambda>i. 0)
     = Some \<lparr>exit_code = 1, stdout = [],
         stderr = ''Error: Memory allocation failed.'' @ [CHR 0x0A]\<rparr>"
proof -
  let ?c = "''alice'' @ [CHR 0x0A] @ ''bob'' @ [CHR 0x0A] @ ''carol'' @ [CHR 0x0A]"
  let ?fs = "\<lambda>name. if name = ''p.txt'' then Some ?c
        else if name = ''e.txt'' then Some [CHR 0x0D, CHR 0x0A, CHR 0x0A] else None"
  let ?argv = "[''rw'', ''p.txt'', ''12'']"
  let ?many = "\<lparr>exit_code = 1, stdout = [],
         stderr = ''Error: Cannot select 12 winners from only 3 participants.'' @ [CHR 0x0A] @
           ''Please reduce the number of winners or add more participants to the file.'' @ [CHR 0x0A]\<rparr>"
  have h1: "?argv \<noteq> []" by simp
  have s: "length ?c < (2::nat) ^ 30" by simp
  have h2: "length ?argv = 3 \<and> 0 < atoi (?argv ! 2) \<longrightarrow>
      (\<forall>content. ?fs (?argv ! 1) = Some content \<longrightarrow> length content < 2 ^ 30)"
    by simp
  have a: "atoi ''12'' = 12" by code_simp
  have rl: "read_lines ?fs ''p.txt'' [] = Some (0, [''alice'', ''bob'', ''carol''])" by code_simp
  have d: "decimal 12 = ''12''" "decimal (Suc (Suc (Suc 0))) = ''3''"
    by code_simp+
  from main_error_terminal [of ?argv ?fs "[]" "\<lambda>i. 0", OF h1 h2]
  obtain r where r: "main ?argv ?fs [] (\<lambda>i. 0) = Some r"
    and many: "\<forall>lines. length ?argv = 3 \<and> 0 < atoi (?argv ! 2) \<and>
        read_lines ?fs (?argv ! 1) [] = Some (0, lines) \<and> lines \<noteq> [] \<and>
        int (length lines) < atoi (?argv ! 2) \<longrightarrow>
        r = \<lparr>exit_code = 1, stdout = [],
             stderr = ''Error: Cannot select '' @ decimal (nat (atoi (?argv ! 2))) @
               '' winners from only '' @ decimal (length lines) @ '' participants.'' @ [CHR 0x0A] @
               ''Please reduce the number of winners or add more participants to the file.'' @
               [CHR 0x0A]\<rparr>"
    by blast
  have p: "length ?argv = 3 \<and> 0 < atoi (?argv ! 2) \<and>
        read_lines ?fs (?argv ! 1) [] = Some (0, [''alice'', ''bob'', ''carol'']) \<and>
        [''alice'', ''bob'', ''carol''] \<noteq> [] \<and>
        int (length [''alice'', ''bob'', ''carol'']) < atoi (?argv ! 2)"
    using a rl by simp
  from many [rule_format, OF p] have "r = ?many"
    by (simp add: a d)
  with r have m: "main ?argv ?fs [] (\<lambda>i. 0) = Some ?many" by simp
  have u: "main [''rw''] ?fs [] (\<lambda>i. 0)
     = Some \<lparr>exit_code = 1,
         stdout = ''Usage: rw <input_file> <number_of_winners>'' @ [CHR 0x0A] @ [CHR 0x0A] @
           ''Arguments:'' @ [CHR 0x0A] @
           ''  input_file        Path to text file with one nickname per line'' @ [CHR 0x0A] @
           ''  number_of_winners Number of random winners to select'' @ [CHR 0x0A] @ [CHR 0x0A] @
           ''Example:'' @ [CHR 0x0A] @
           ''  rw participants.txt 3'' @ [CHR 0x0A],
         stderr = []\<rparr>"
    by code_simp
  have e1: "main [''rw'', ''p.txt'', ''-1''] ?fs [] (\<lambda>i. 0)
     = Some \<lparr>exit_code = 1, stdout = [],
         stderr = ''Error: Number of winners must be a positive integer.'' @ [CHR 0x0A]\<rparr>"
    by code_simp
  have e2: "main [''rw'', ''q.txt'', ''1''] ?fs [] (\<lambda>i. 0)
     = Some \<lparr>exit_code = 1, stdout = [],
         stderr = ''Error: Could not open file '' @ [CHR 0x27] @ ''q.txt'' @ [CHR 0x27] @
           ''. Please check the file path.'' @ [CHR 0x0A]\<rparr>"
    by code_simp
  have e3: "main [''rw'', ''p.txt'', ''1''] ?fs [True, True, True, False] (\<lambda>i. 0)
     = Some \<lparr>exit_code = 1, stdout = [],
         stderr = ''Error: Memory allocation failed.'' @ [CHR 0x0A]\<rparr>"
    by code_simp
  have e4: "main [''rw'', ''e.txt'', ''1''] ?fs [] (\<lambda>i. 0)
     = Some \<lparr>exit_code = 1, stdout = [],
         stderr = ''Error: The file '' @ [CHR 0x27] @ ''e.txt'' @ [CHR 0x27] @
           '' contains no valid nicknames.'' @ [CHR 0x0A]\<rparr>"
    by code_simp
  have e5: "main [''rw'', ''p.txt'', ''1''] (\<lambda>name. Some (concat (replicate 101 (''a'' @ [CHR 0x0A]))))
     (replicate 102 True @ [False]) (\<lambda>i. 0)
     = Some \<lparr>exit_code = 1, stdout = [],
         stderr = ''Error: Memory allocation failed.'' @ [CHR 0x0A]\<rparr>"
    by code_simp
  from h1 s m u e1 e2 e3 e4 e5 show ?thesis by blast
qed

text \<open>
  The claim as stated fails for a requested number of winners that is not an \<^verbatim>\<open>int\<close>:
  4294967297 winners requested from a file of one participant are read as 1; no error
  is reported, the winner is printed and the exit code is 0.
\<close>

theorem main_error_undetected:
  "read_lines (\<lambda>name. Some (''alice'' @ [CHR 0x0A])) ''p.txt'' [] = Some (0, [''alice'']) \<and>
   main [''rw'', ''p.txt'', ''4294967297''] (\<lambda>name. Some (''alice'' @ [CHR 0x0A])) [] (\<lambda>i. 0)
     = Some \<lparr>exit_code = 0,
         stdout = [CHR 0xC3, CHR 0xB0, CHR 0xC5, CHR 0xB8, CHR 0xC5, CHR 0xBD, CHR 0xE2, CHR 0x80, CHR 0xB0] @
           '' Randomly selected 1 winner(s) from 1 participants:'' @ [CHR 0x0A, CHR 0x0A] @
           ''  1. alice'' @ [CHR 0x0A] @ [CHR 0x0A],
         stderr = []\<rparr>"
proof -
  have a: "read_lines (\<lambda>name. Some (''alice'' @ [CHR 0x0A])) ''p.txt'' [] = Some (0, [''alice''])"
    by code_simp
  have b: "main [''rw'', ''p.txt'', ''4294967297''] (\<lambda>name. Some (''alice'' @ [CHR 0x0A])) [] (\<lambda>i. 0)
     = Some \<lparr>exit_code = 0,
         stdout = [CHR 0xC3, CHR 0xB0, CHR 0xC5, CHR 0xB8, CHR 0xC5, CHR 0xBD, CHR 0xE2, CHR 0x80, CHR 0xB0] @
           '' Randomly selected 1 winner(s) from 1 participants:'' @ [CHR 0x0A, CHR 0x0A] @
           ''  1. alice'' @ [CHR 0x0A] @ [CHR 0x0A],
         stderr = []\<rparr>"
    by code_simp
  from a b show ?thesis by blast
qed

subsection \<open>\<^verbatim>\<open>atoi\<close> on the winner count\<close>

lemma parse_digits_none: "takeWhile isdigit s = [] \<Longrightarrow> parse_digits acc s = acc"
  by (cases s) (auto split: if_splits)

lemma parse_digits_append:
  "\<forall>c\<in>set ds. isdigit c \<Longrightarrow> parse_digits acc (ds @ rest) = parse_digits (parse_digits acc ds) rest"
  by (induction ds arbitrary: acc) simp_all

lemma digit_char_digit:
  assumes "d < 10"
  shows "isdigit (digit_char d)" and "digit_value (digit_char d) = int d"
proof -
  from assms have "d \<in> {0, 1, 2, 3, 4, 5, 6, 7, 8, 9}" by auto
  then show "isdigit (digit_char d)"
    by (elim insertE emptyE) (simp_all add: digit_char_def isdigit_def)
  from \<open>d \<in> {0, 1, 2, 3, 4, 5, 6, 7, 8, 9}\<close> show "digit_value (digit_char d) = int d"
    by (elim insertE emptyE) (simp_all add: digit_char_def digit_value_def)
qed

lemma decimal_digits: "\<forall>c\<in>set (decimal n). isdigit c"
proof (induction n rule: decimal.induct)
  case (1 n)
  show ?case
  proof (cases "n < 10")
    case True
    then show ?thesis by (subst decimal.simps) (simp add: digit_char_digit)
  next
    case False
    have "n mod 10 < 10" by simp
    then have "isdigit (digit_char (n mod 10))" by (rule digit_char_digit)
    with False "1.IH" show ?thesis by (subst decimal.simps) simp
  qed
qed

lemma decimal_not_Nil: "decimal n \<noteq> []"
  by (subst decimal.simps) simp

text \<open>Reading back what \<^verbatim>\<open>%d\<close> prints gives the number printed.\<close>

lemma parse_digits_decimal: "parse_digits 0 (decimal n) = int n"
proof (induction n rule: decimal.induct)
  case (1 n)
  show ?case
  proof (cases "n < 10")
    case True
    then show ?thesis by (subst decimal.simps) (simp add: digit_char_digit)
  next
    case False
    have m: "n mod 10 < 10" by simp
    have "parse_digits 0 (decimal (n div 10) @ [digit_char (n mod 10)])
        = parse_digits (parse_digits 0 (decimal (n div 10))) [digit_char (n mod 10)]"
      using decimal_digits by (rule parse_digits_append)
    also have "\<dots> = int (n div 10) * 10 + int (n mod 10)"
      using False "1.IH" digit_char_digit [OF m] by simp
    also have "\<dots> = int (n div 10 * 10 + n mod 10)"
      by (simp only: of_nat_add of_nat_mult of_nat_numeral)
    also have "\<dots> = int n" by (simp only: div_mult_mod_eq)
    finally show ?thesis using False by (subst decimal.simps) simp
  qed
qed

lemma parse_digits_zeros: "parse_digits 0 (replicate z (CHR ''0'') @ s) = parse_digits 0 s"
  by (induction z) (simp_all add: isdigit_def digit_value_def)

lemma parse_digits_numeral:
  assumes "takeWhile isdigit rest = []"
  shows "parse_digits 0 (replicate z (CHR ''0'') @ decimal n @ rest) = int n"
proof -
  have "parse_digits 0 (decimal n @ rest) = parse_digits (parse_digits 0 (decimal n)) rest"
    using decimal_digits by (rule parse_digits_append)
  with assms show ?thesis by (simp add: parse_digits_zeros parse_digits_decimal parse_digits_none)
qed

lemma isdigit_plain: "isdigit c \<Longrightarrow> \<not> isspace c \<and> c \<noteq> CHR ''-'' \<and> c \<noteq> CHR ''+''"
  by (auto simp: isdigit_def isspace_def)

lemma numeral_head:
  "\<exists>c t. replicate z (CHR ''0'') @ decimal n @ rest = c # t \<and> isdigit c"
proof (cases z)
  case 0
  obtain c t where d: "decimal n = c # t" using decimal_not_Nil by (cases "decimal n") auto
  with decimal_digits [of n] have "isdigit c" by simp
  with 0 d show ?thesis by simp
next
  case (Suc k)
  then show ?thesis by (simp add: isdigit_def)
qed

lemma dropWhile_isspace:
  "\<forall>c\<in>set ws. isspace c \<Longrightarrow> \<not> isspace c \<Longrightarrow> dropWhile isspace (ws @ c # t) = c # t"
  by (induction ws) simp_all

lemma strtol_numeral:
  assumes "\<forall>c\<in>set ws. isspace c" and "takeWhile isdigit rest = []"
  shows "strtol (ws @ replicate z (CHR ''0'') @ decimal n @ rest) = min (int n) LONG_MAX"
    and "strtol (ws @ ''+'' @ replicate z (CHR ''0'') @ decimal n @ rest) = min (int n) LONG_MAX"
    and "strtol (ws @ ''-'' @ replicate z (CHR ''0'') @ decimal n @ rest) = max (- int n) LONG_MIN"
proof -
  let ?ds = "replicate z (CHR ''0'') @ decimal n @ rest"
  have v: "parse_digits 0 ?ds = int n" using assms(2) by (rule parse_digits_numeral)
  obtain c t where ct: "?ds = c # t" and c: "isdigit c" using numeral_head by blast
  note p = isdigit_plain [OF c]
  have "dropWhile isspace (ws @ ?ds) = ?ds"
    using dropWhile_isspace [OF assms(1), of c t] p ct by simp
  moreover have "skip_sign ?ds = (False, ?ds)" using ct p by (simp add: skip_sign_def)
  ultimately show "strtol (ws @ ?ds) = min (int n) LONG_MAX"
    using v by (simp add: strtol_def LONG_MAX_def LONG_MIN_def)
  have sp: "\<not> isspace (CHR ''+'')" "\<not> isspace (CHR ''-'')" by (simp_all add: isspace_def)
  have "dropWhile isspace (ws @ ''+'' @ ?ds) = ''+'' @ ?ds"
    using dropWhile_isspace [OF assms(1) sp(1), of ?ds] by simp
  moreover have "skip_sign (''+'' @ ?ds) = (False, ?ds)" by (simp add: skip_sign_def)
  ultimately show "strtol (ws @ ''+'' @ ?ds) = min (int n) LONG_MAX"
    using v by (simp add: strtol_def LONG_MAX_def LONG_MIN_def)
  have "dropWhile isspace (ws @ ''-'' @ ?ds) = ''-'' @ ?ds"
    using dropWhile_isspace [OF assms(1) sp(2), of ?ds] by simp
  moreover have "skip_sign (''-'' @ ?ds) = (True, ?ds)" by (simp add: skip_sign_def)
  ultimately show "strtol (ws @ ''-'' @ ?ds) = max (- int n) LONG_MIN"
    using v by (simp add: strtol_def LONG_MAX_def LONG_MIN_def Let_def)
qed

lemma long_to_int_id: "- 2147483648 \<le> x \<Longrightarrow> x \<le> 2147483647 \<Longrightarrow> long_to_int x = x"
  by (simp add: long_to_int_def)

lemma main_atoi:
  "atoi s = atoi t \<Longrightarrow>
   main [program_name, filename, s] fs allocs rnd = main [program_name, filename, t] fs allocs rnd"
  by (simp add: main_def)

text \<open>
  Claim C10, as amended. The winner count is what \<open>atoi\<close> makes of the second
  argument. An argument in which no digit follows the optional white space and sign
  (such as \<^verbatim>\<open>abc\<close>) parses to 0, and the run fails with the message for a non-positive
  count. An argument made of optional white space \<open>ws\<close>, an optional sign, optional
  zeros, the decimal digits of a number \<open>n\<close> that is an \<^verbatim>\<open>int\<close>, and a rest that does
  not start with a digit (such as \<^verbatim>\<open>3abc\<close>), parses to \<open>n\<close>, and the run is the run on
  the digits of \<open>n\<close> alone; after a minus sign it parses to \<open>- n\<close>, and the run fails
  with the message for a non-positive count. For a number \<open>n\<close> of any size the result
  is the low 32 bits, as a signed number, of \<open>n\<close> or of \<open>LONG_MAX\<close> if that is smaller.
\<close>

theorem atoi_winner_count:
  "(takeWhile isdigit (snd (skip_sign (dropWhile isspace s))) = [] \<longrightarrow>
      atoi s = 0 \<and>
      main [program_name, filename, s] fs allocs rnd =
        Some \<lparr>exit_code = 1, stdout = [],
          stderr = ''Error: Number of winners must be a positive integer.'' @ [CHR 0x0A]\<rparr>) \<and>
   ((\<forall>c\<in>set ws. c \<in> {CHR '' '', CHR 0x09, CHR 0x0A, CHR 0x0B, CHR 0x0C, CHR 0x0D}) \<and>
    (rest = [] \<or> hd rest \<notin> set ''0123456789'') \<longrightarrow>
      (n \<le> 2147483647 \<longrightarrow>
         atoi (ws @ replicate z (CHR ''0'') @ decimal n @ rest) = int n \<and>
         atoi (ws @ ''+'' @ replicate z (CHR ''0'') @ decimal n @ rest) = int n \<and>
         atoi (ws @ ''-'' @ replicate z (CHR ''0'') @ decimal n @ rest) = - int n \<and>
         main [program_name, filename, ws @ replicate z (CHR ''0'') @ decimal n @ rest] fs allocs rnd
           = main [program_name, filename, decimal n] fs allocs rnd \<and>
         main [program_name, filename, ws @ ''+'' @ replicate z (CHR ''0'') @ decimal n @ rest] fs allocs rnd
           = main [program_name, filename, decimal n] fs allocs rnd \<and>
         main [program_name, filename, ws @ ''-'' @ replicate z (CHR ''0'') @ decimal n @ rest] fs allocs rnd
           = Some \<lparr>exit_code = 1, stdout = [],
               stderr = ''Error: Number of winners must be a positive integer.'' @ [CHR 0x0A]\<rparr>) \<and>
      atoi (ws @ replicate z (CHR ''0'') @ decimal n @ rest)
        = (min (int n) 9223372036854775807 + 2147483648) mod 4294967296 - 2147483648)"
proof (intro conjI impI)
  assume a: "takeWhile isdigit (snd (skip_sign (dropWhile isspace s))) = []"
  obtain negative digits where sk: "skip_sign (dropWhile isspace s) = (negative, digits)" by fastforce
  with a have "parse_digits 0 digits = 0" by (simp add: parse_digits_none)
  with sk show z: "atoi s = 0"
    by (simp add: atoi_def strtol_def long_to_int_def LONG_MIN_def LONG_MAX_def)
  then show "main [program_name, filename, s] fs allocs rnd =
        Some \<lparr>exit_code = 1, stdout = [],
          stderr = ''Error: Number of winners must be a positive integer.'' @ [CHR 0x0A]\<rparr>"
    using main_early [of "[program_name, filename, s]" fs allocs rnd]
    by (simp add: failure_not_positive)
next
  assume h: "(\<forall>c\<in>set ws. c \<in> {CHR '' '', CHR 0x09, CHR 0x0A, CHR 0x0B, CHR 0x0C, CHR 0x0D}) \<and>
    (rest = [] \<or> hd rest \<notin> set ''0123456789'')"
  then have ws: "\<forall>c\<in>set ws. isspace c" by (simp add: isspace_def)
  from h have rest: "takeWhile isdigit rest = []" by (cases rest) (auto simp: isdigit_def)
  note st = strtol_numeral [OF ws rest, of z n]
  show "atoi (ws @ replicate z (CHR ''0'') @ decimal n @ rest)
        = (min (int n) 9223372036854775807 + 2147483648) mod 4294967296 - 2147483648"
    by (simp add: atoi_def st(1) long_to_int_def LONG_MAX_def)
  assume n: "n \<le> 2147483647"
  then have m: "min (int n) LONG_MAX = int n" "max (- int n) LONG_MIN = - int n"
    by (simp_all add: LONG_MAX_def LONG_MIN_def)
  show v: "atoi (ws @ replicate z (CHR ''0'') @ decimal n @ rest) = int n"
    using n by (simp add: atoi_def st(1) m long_to_int_id)
  show p: "atoi (ws @ ''+'' @ replicate z (CHR ''0'') @ decimal n @ rest) = int n"
    using n by (simp only: atoi_def st(2) m) (simp add: long_to_int_id)
  show q: "atoi (ws @ ''-'' @ replicate z (CHR ''0'') @ decimal n @ rest) = - int n"
    using n by (simp only: atoi_def st(3) m) (simp add: long_to_int_id)
  have "strtol (decimal n) = min (int n) LONG_MAX"
    using strtol_numeral(1) [of "[]" "[]" 0 n] by simp
  then have d: "atoi (decimal n) = int n" using n by (simp add: atoi_def m long_to_int_id)
  with v have "atoi (ws @ replicate z (CHR ''0'') @ decimal n @ rest) = atoi (decimal n)" by simp
  then show "main [program_name, filename, ws @ replicate z (CHR ''0'') @ decimal n @ rest] fs allocs rnd
           = main [program_name, filename, decimal n] fs allocs rnd"
    by (rule main_atoi)
  from p d have "atoi (ws @ ''+'' @ replicate z (CHR ''0'') @ decimal n @ rest) = atoi (decimal n)"
    by simp
  then show "main [program_name, filename, ws @ ''+'' @ replicate z (CHR ''0'') @ decimal n @ rest] fs allocs rnd
           = main [program_name, filename, decimal n] fs allocs rnd"
    by (rule main_atoi)
  from q have "atoi ([program_name, filename, ws @ ''-'' @ replicate z (CHR ''0'') @ decimal n @ rest] ! 2) \<le> 0"
    by simp
  with main_early [of "[program_name, filename, ws @ ''-'' @ replicate z (CHR ''0'') @ decimal n @ rest]" fs allocs rnd]
  show "main [program_name, filename, ws @ ''-'' @ replicate z (CHR ''0'') @ decimal n @ rest] fs allocs rnd
           = Some \<lparr>exit_code = 1, stdout = [],
               stderr = ''Error: Number of winners must be a positive integer.'' @ [CHR 0x0A]\<rparr>"
    by (simp add: failure_not_positive)
qed

theorem atoi_winner_count_witness:
  "takeWhile isdigit (snd (skip_sign (dropWhile isspace ''abc''))) = [] \<and>
   atoi ''abc'' = 0 \<and>
   main [''rw'', ''p.txt'', ''abc''] (\<lambda>name. Some (''alice'' @ [CHR 0x0A])) [] (\<lambda>i. 0)
     = Some \<lparr>exit_code = 1, stdout = [],
         stderr = ''Error: Number of winners must be a positive integer.'' @ [CHR 0x0A]\<rparr> \<and>
   decimal 12 = ''12'' \<and>
   atoi '' 0012abc'' = 12 \<and> atoi '' +0012abc'' = 12 \<and> atoi '' -0012abc'' = - 12 \<and>
   main [''rw'', ''p.txt'', '' 0012abc''] (\<lambda>name. Some (''alice'' @ [CHR 0x0A])) [] (\<lambda>i. 0)
     = main [''rw'', ''p.txt'', ''12''] (\<lambda>name. Some (''alice'' @ [CHR 0x0A])) [] (\<lambda>i. 0) \<and>
   atoi ''3abc'' = 3 \<and>
   main [''rw'', ''p.txt'', ''1abc''] (\<lambda>name. Some (''alice'' @ [CHR 0x0A])) [] (\<lambda>i. 0)
     = Some \<lparr>exit_code = 0,
         stdout = [CHR 0xC3, CHR 0xB0, CHR 0xC5, CHR 0xB8, CHR 0xC5, CHR 0xBD, CHR 0xE2, CHR 0x80, CHR 0xB0] @
           '' Randomly selected 1 winner(s) from 1 participants:'' @ [CHR 0x0A, CHR 0x0A] @
           ''  1. alice'' @ [CHR 0x0A] @ [CHR 0x0A],
         stderr = []\<rparr> \<and>
   atoi ''2147483647xyz'' = 2147483647"
proof -
  let ?fs = "\<lambda>name. Some (''alice'' @ [CHR 0x0A])"
  have p1: "takeWhile isdigit (snd (skip_sign (dropWhile isspace ''abc''))) = []" by code_simp
  have p2: "(\<forall>c\<in>set '' ''. c \<in> {CHR '' '', CHR 0x09, CHR 0x0A, CHR 0x0B, CHR 0x0C, CHR 0x0D}) \<and>
    (''abc'' = [] \<or> hd ''abc'' \<notin> set ''0123456789'')" by simp
  have p3: "(12::nat) \<le> 2147483647" by simp
  have d: "decimal 12 = ''12''" by code_simp
  have z: "replicate 2 (CHR ''0'') = ''00''" by code_simp
  note t = atoi_winner_count [where s = "''abc''" and ws = "'' ''" and rest = "''abc''"
      and n = 12 and z = 2 and program_name = "''rw''" and filename = "''p.txt''"
      and fs = ?fs and allocs = "[]" and rnd = "\<lambda>i. 0"]
  note t1 = t [THEN conjunct1, rule_format, OF p1]
  note t2 = t [THEN conjunct2, rule_format, OF p2, THEN conjunct1, rule_format, OF p3]
  from t1 have c1: "atoi ''abc'' = 0"
    and c2: "main [''rw'', ''p.txt'', ''abc''] ?fs [] (\<lambda>i. 0)
     = Some \<lparr>exit_code = 1, stdout = [],
         stderr = ''Error: Number of winners must be a positive integer.'' @ [CHR 0x0A]\<rparr>"
    by blast+
  from t2 have c3: "atoi '' 0012abc'' = 12" and c4: "atoi '' +0012abc'' = 12"
    and c5: "atoi '' -0012abc'' = - 12"
    and c6: "main [''rw'', ''p.txt'', '' 0012abc''] ?fs [] (\<lambda>i. 0)
     = main [''rw'', ''p.txt'', ''12''] ?fs [] (\<lambda>i. 0)"
    unfolding d z by simp_all
  have c7: "atoi ''3abc'' = 3" by code_simp
  have c8: "main [''rw'', ''p.txt'', ''1abc''] ?fs [] (\<lambda>i. 0)
     = Some \<lparr>exit_code = 0,
         stdout = [CHR 0xC3, CHR 0xB0, CHR 0xC5, CHR 0xB8, CHR 0xC5, CHR 0xBD, CHR 0xE2, CHR 0x80, CHR 0xB0] @
           '' Randomly selected 1 winner(s) from 1 participants:'' @ [CHR 0x0A, CHR 0x0A] @
           ''  1. alice'' @ [CHR 0x0A] @ [CHR 0x0A],
         stderr = []\<rparr>"
    by code_simp
  have c9: "atoi ''2147483647xyz'' = 2147483647" by code_simp
  from p1 c1 c2 d c3 c4 c5 c6 c7 c8 c9 show ?thesis by blast
qed

text \<open>
  The claim as stated fails for a numeric prefix that is not an \<^verbatim>\<open>int\<close>: the prefix
  4294967299 is read as 3, and the prefix 2147483648 is read as -2147483648, so that
  the run rejects it as a non-positive winner count.
\<close>

theorem atoi_beyond_int:
  "atoi ''4294967299abc'' = 3 \<and> atoi ''2147483648abc'' = - 2147483648 \<and>
   atoi ''99999999999999999999abc'' = - 1 \<and>
   main [''rw'', ''p.txt'', ''2147483648abc''] (\<lambda>name. Some (''alice'' @ [CHR 0x0A])) [] (\<lambda>i. 0)
     = Some \<lparr>exit_code = 1, stdout = [],
         stderr = ''Error: Number of winners must be a positive integer.'' @ [CHR 0x0A]\<rparr>"
proof -
  have a: "atoi ''4294967299abc'' = 3" "atoi ''2147483648abc'' = - 2147483648"
    "atoi ''99999999999999999999abc'' = - 1"
    by code_simp+
  have b: "main [''rw'', ''p.txt'', ''2147483648abc''] (\<lambda>name. Some (''alice'' @ [CHR 0x0A])) [] (\<lambda>i. 0)
     = Some \<lparr>exit_code = 1, stdout = [],
         stderr = ''Error: Number of winners must be a positive integer.'' @ [CHR 0x0A]\<rparr>"
    by code_simp
  from a b show ?thesis by blast
qed
section \<open>Fisher-Yates: which outcomes \<^verbatim>\<open>shuffle\<close> can produce, and how often\<close>

lemma nth_draws: "t < k \<Longrightarrow> draws rnd L i k ! t = draw rnd L (i + t)"
proof (induction k arbitrary: i t)
  case 0
  then show ?case by simp
next
  case (Suc k)
  then show ?case by (cases t) simp_all
qed

lemma valid_swaps_nth:
  "valid_swaps L i js \<Longrightarrow> t < length js \<Longrightarrow> i + t \<le> js ! t \<and> js ! t < L"
proof (induction js arbitrary: i t)
  case Nil
  then show ?case by simp
next
  case (Cons j js)
  show ?case
  proof (cases t)
    case 0
    with Cons.prems show ?thesis by simp
  next
    case (Suc u)
    with Cons.prems have "valid_swaps L (Suc i) js" and "u < length js" by simp_all
    from Cons.IH [OF this] Suc show ?thesis by simp
  qed
qed

lemma draws_of_swaps:
  assumes "valid_swaps L 0 js"
  shows "draws (\<lambda>t. if t < length js then js ! t - t else 0) L 0 (length js) = js"
    and "L \<le> Suc rand_max \<Longrightarrow> (if t < length js then js ! t - t else 0) \<le> rand_max"
proof -
  let ?rnd = "\<lambda>t. if t < length js then js ! t - t else 0"
  have "draw ?rnd L t = js ! t" if "t < length js" for t
  proof -
    from valid_swaps_nth [OF assms that] have "t \<le> js ! t" and "js ! t < L" by simp_all
    then have "(js ! t - t) mod (L - t) = js ! t - t" by simp
    with \<open>t \<le> js ! t\<close> that show ?thesis by (simp add: draw_def)
  qed
  then show "draws ?rnd L 0 (length js) = js" by (simp add: nth_draws list_eq_iff_nth_eq)
  show "?rnd t \<le> rand_max" if "L \<le> Suc rand_max"
  proof (cases "t < length js")
    case True
    from valid_swaps_nth [OF assms True] have "js ! t < L" by simp
    with that True show ?thesis by simp
  next
    case False
    then show ?thesis by simp
  qed
qed

lemma swap_nth_first:
  "i < length xs \<Longrightarrow> j < length xs \<Longrightarrow> (xs[i := xs ! j, j := xs ! i]) ! i = xs ! j"
  by (cases "i = j") simp_all

lemma swaps_inj:
  assumes "distinct xs" and "valid_swaps (length xs) i js" and "valid_swaps (length xs) i ks"
    and "length js = length ks" and "i + length js \<le> length xs"
    and "\<forall>p. i \<le> p \<and> p < i + length js \<longrightarrow> swaps i js xs ! p = swaps i ks xs ! p"
  shows "js = ks"
  using assms
proof (induction js arbitrary: i xs ks)
  case Nil
  then show ?case by simp
next
  case (Cons j js)
  from Cons.prems(4) obtain k ks1 where ks: "ks = k # ks1" by (cases ks) auto
  let ?xj = "xs[i := xs ! j, j := xs ! i]"
  let ?xk = "xs[i := xs ! k, k := xs ! i]"
  have j: "i \<le> j" "j < length xs" and vj: "valid_swaps (length xs) (Suc i) js"
    using Cons.prems(2) by simp_all
  have k: "i \<le> k" "k < length xs" and vk: "valid_swaps (length xs) (Suc i) ks1"
    using Cons.prems(3) ks by simp_all
  have i: "i < length xs" using j by simp
  have "swaps i (j # js) xs ! i = swaps i ks xs ! i" using Cons.prems(5,6) by simp
  moreover have "swaps i (j # js) xs ! i = xs ! j"
    using swaps_nth_below [OF vj, of i ?xj] swap_nth_first [OF i j(2)] by simp
  moreover have "swaps i ks xs ! i = xs ! k"
    using ks swaps_nth_below [OF vk, of i ?xk] swap_nth_first [OF i k(2)] by simp
  ultimately have "xs ! j = xs ! k" by simp
  with Cons.prems(1) j(2) k(2) have jk: "j = k" by (simp add: nth_eq_iff_index_eq)
  have d: "distinct ?xj" using Cons.prems(1) i j(2) by (simp add: distinct_swap)
  have "js = ks1"
  proof (rule Cons.IH [of ?xj "Suc i" ks1])
    show "distinct ?xj" by (rule d)
    show "valid_swaps (length ?xj) (Suc i) js" using vj by simp
    show "valid_swaps (length ?xj) (Suc i) ks1" using vk by simp
    show "length js = length ks1" using Cons.prems(4) ks by simp
    show "Suc i + length js \<le> length ?xj" using Cons.prems(5) by simp
    show "\<forall>p. Suc i \<le> p \<and> p < Suc i + length js \<longrightarrow> swaps (Suc i) js ?xj ! p = swaps (Suc i) ks1 ?xj ! p"
      using Cons.prems(6) ks jk by simp
  qed
  with jk ks show ?case by simp
qed

lemma drop_swap_mset:
  assumes "i \<le> j" and "j < length xs"
  shows "mset (drop i (xs[i := xs ! j, j := xs ! i])) = mset (drop i xs)"
proof -
  let ?ys = "xs[i := xs ! j, j := xs ! i]"
  have i: "i < length xs" using assms by simp
  have t: "take i ?ys = take i xs" using assms by simp
  have "mset ?ys = mset xs" using i assms(2) by (simp add: mset_swap)
  moreover have "mset ?ys = mset (take i ?ys) + mset (drop i ?ys)"
    by (metis append_take_drop_id mset_append)
  moreover have "mset xs = mset (take i xs) + mset (drop i xs)"
    by (metis append_take_drop_id mset_append)
  ultimately show ?thesis using t by simp
qed

lemma swaps_surj:
  assumes "distinct xs" and "i + length ys \<le> length xs" and "distinct ys"
    and "set ys \<subseteq> set (drop i xs)"
  shows "\<exists>js. length js = length ys \<and> valid_swaps (length xs) i js
           \<and> take (length ys) (drop i (swaps i js xs)) = ys"
  using assms
proof (induction ys arbitrary: i xs)
  case Nil
  show ?case by (intro exI [of _ "[]"]) simp
next
  case (Cons y ys)
  from Cons.prems(4) have "y \<in> set (drop i xs)" by simp
  then obtain t where t: "t < length (drop i xs)" "drop i xs ! t = y"
    by (auto simp: in_set_conv_nth)
  define j where "j = i + t"
  have j: "i \<le> j" "j < length xs" and xj: "xs ! j = y"
    using t by (simp_all add: j_def)
  have i: "i < length xs" using j by simp
  let ?xs = "xs[i := xs ! j, j := xs ! i]"
  have d: "distinct ?xs" using Cons.prems(1) i j(2) by (simp add: distinct_swap)
  have first: "?xs ! i = y" using swap_nth_first [OF i j(2)] xj by simp
  have dr: "drop i ?xs = y # drop (Suc i) ?xs"
    using i first by (metis Cons_nth_drop_Suc length_list_update)
  have "mset (drop i ?xs) = mset (drop i xs)" using j by (rule drop_swap_mset)
  then have "set (drop i ?xs) = set (drop i xs)" by (rule mset_eq_setD)
  with dr have s: "set (drop i xs) = insert y (set (drop (Suc i) ?xs))" by simp
  have "set ys \<subseteq> set (drop (Suc i) ?xs)"
  proof
    fix z assume z: "z \<in> set ys"
    with Cons.prems(3) have "z \<noteq> y" by auto
    moreover from z Cons.prems(4) have "z \<in> set (drop i xs)" by auto
    ultimately show "z \<in> set (drop (Suc i) ?xs)" using s by simp
  qed
  moreover have "Suc i + length ys \<le> length ?xs" using Cons.prems(2) by simp
  moreover have "distinct ys" using Cons.prems(3) by simp
  ultimately obtain js where js: "length js = length ys" "valid_swaps (length ?xs) (Suc i) js"
    "take (length ys) (drop (Suc i) (swaps (Suc i) js ?xs)) = ys"
    using Cons.IH [OF d] by blast
  let ?zs = "swaps (Suc i) js ?xs"
  have v: "valid_swaps (length xs) (Suc i) js" using js(2) by simp
  have "?zs ! i = y" using swaps_nth_below [OF v, of i ?xs] first by simp
  moreover have "i < length ?zs" using i by simp
  ultimately have "drop i ?zs = y # drop (Suc i) ?zs" by (metis Cons_nth_drop_Suc)
  then have "take (length (y # ys)) (drop i (swaps i (j # js) xs)) = y # ys"
    using js(3) by simp
  moreover have "valid_swaps (length xs) i (j # js)" using j v by simp
  moreover have "length (j # js) = length (y # ys)" using js(1) by simp
  ultimately show ?case by blast
qed

lemma take_shuffle_first:
  assumes "1 \<le> N" and "N \<le> L"
  shows "take N (swaps 0 (draws rnd L 0 (L - 1)) xs) = take N (swaps 0 (draws rnd L 0 N) xs)"
proof (cases "N = L")
  case True
  have "draws rnd L 0 L = draws rnd L 0 (L - 1) @ draws rnd L (L - 1) 1"
    using assms draws_add [of rnd L 0 "L - 1" 1] by simp
  then have "swaps 0 (draws rnd L 0 L) xs = swaps 0 (draws rnd L 0 (L - 1)) xs"
    using assms swaps_last_draw [of L rnd] by (simp add: swaps_append del: draws.simps)
  with True show ?thesis by simp
next
  case False
  with assms have "N \<le> L - 1" by simp
  then show ?thesis by (intro take_swaps_draws) simp_all
qed

lemma count_residue:
  "k < d \<Longrightarrow> length (filter (\<lambda>r. r mod d = k) [0..<m]) = m div d + (if k < m mod d then 1 else 0)"
proof (induction m)
  case 0
  then show ?case by simp
next
  case (Suc m)
  show ?case
  proof (cases "Suc (m mod d) = d")
    case True
    then have "Suc m mod d = 0" "Suc m div d = Suc (m div d)"
      by (simp_all add: mod_Suc div_Suc)
    with Suc True show ?thesis by auto
  next
    case False
    then have "Suc m mod d = Suc (m mod d)" "Suc m div d = m div d"
      by (simp_all add: mod_Suc div_Suc)
    with Suc show ?thesis by auto
  qed
qed

lemma draws_to_count:
  assumes "i < L" and "i \<le> j" and "j < L"
  shows "draws_to rand_max (int i) (int L) (int j)
       = Suc rand_max div (L - i) + (if j - i < Suc rand_max mod (L - i) then 1 else 0)"
proof -
  have "(swap_index (int i) (int L) (int r) = Some (int j)) = (r mod (L - i) = j - i)" for r
  proof -
    have "swap_index (int i) (int L) (int r) = Some (int (i + r mod (L - i)))"
      using assms(1) by (rule swap_index_draw)
    moreover have "(int (i + r mod (L - i)) = int j) = (r mod (L - i) = j - i)"
      using assms(2) by auto
    ultimately show ?thesis by simp
  qed
  then have "draws_to rand_max (int i) (int L) (int j)
      = length (filter (\<lambda>r. r mod (L - i) = j - i) [0..<Suc rand_max])"
    by (simp add: draws_to_def)
  also have "\<dots> = Suc rand_max div (L - i) + (if j - i < Suc rand_max mod (L - i) then 1 else 0)"
    using assms by (intro count_residue) simp
  finally show ?thesis .
qed

lemma length_filter_concat_map:
  "length (filter P (concat (map f zs))) = sum_list (map (\<lambda>z. length (filter P (f z))) zs)"
  by (induction zs) simp_all

lemma count_first_draw:
  "length (filter (\<lambda>rs. Q (rs ! 0)) (List.n_lists (Suc n) R)) = length (filter Q R) * length R ^ n"
proof -
  have "length (filter (\<lambda>rs. Q (rs ! 0)) (map (\<lambda>y. y # ys) R)) = length (filter Q R)" for ys :: "'a list"
    by (simp add: filter_map comp_def)
  then have "length (filter (\<lambda>rs. Q (rs ! 0)) (List.n_lists (Suc n) R))
      = sum_list (map (\<lambda>ys. length (filter Q R)) (List.n_lists n R))"
    by (simp add: length_filter_concat_map)
  also have "\<dots> = length (filter Q R) * length R ^ n"
    by (simp add: sum_list_triv length_n_lists)
  finally show ?thesis .
qed

lemma first_winner_of_three:
  assumes "length xs = 3"
  shows "map_option (take 1) (shuffle rnd xs (int (length xs))) = Some [xs ! (rnd 0 mod 3)]"
proof -
  have "shuffle rnd xs (int 3) = Some (swaps 0 (draws rnd 3 0 (3 - 1)) xs)"
    using assms by (intro shuffle_swaps) simp
  moreover have "take 1 (swaps 0 (draws rnd 3 0 (3 - 1)) xs) = take 1 (swaps 0 (draws rnd 3 0 1) xs)"
    by (rule take_shuffle_first) simp_all
  moreover have "take 1 (swaps 0 (draws rnd 3 0 1) xs) = [xs ! (rnd 0 mod 3)]"
  proof -
    have j: "rnd 0 mod 3 < length xs" and z: "0 < length xs" using assms by simp_all
    have "take 1 (xs[0 := xs ! (rnd 0 mod 3), rnd 0 mod 3 := xs ! 0])
        = [(xs[0 := xs ! (rnd 0 mod 3), rnd 0 mod 3 := xs ! 0]) ! 0]"
      using z by (simp add: take_Suc_conv_app_nth)
    with swap_nth_first [OF z j] show ?thesis by (simp add: draw_def)
  qed
  ultimately show ?thesis using assms by simp
qed

lemma winners_count_three:
  assumes "k < 3"
  shows "winners_count rand_max [''alice'', ''bob'', ''carol''] 1 [[''alice'', ''bob'', ''carol''] ! k]
       = (Suc rand_max div 3 + (if k < Suc rand_max mod 3 then 1 else 0)) * Suc rand_max"
proof -
  let ?xs = "[''alice'', ''bob'', ''carol'']"
  have d: "distinct ?xs" and l: "length ?xs = 3" by simp_all
  have p: "(map_option (take 1) (shuffle (\<lambda>i. rs ! i) ?xs (int (length ?xs))) = Some [?xs ! k])
      = (rs ! 0 mod 3 = k)" for rs :: "nat list"
  proof -
    have "rs ! 0 mod 3 < length ?xs" and "k < length ?xs" using assms by simp_all
    with d have e: "(?xs ! (rs ! 0 mod 3) = ?xs ! k) = (rs ! 0 mod 3 = k)"
      by (rule nth_eq_iff_index_eq)
    have w: "map_option (take 1) (shuffle (\<lambda>i. rs ! i) ?xs (int (length ?xs)))
        = Some [?xs ! (rs ! 0 mod 3)]"
      by (rule first_winner_of_three [OF l])
    show ?thesis by (subst w) (use e in simp)
  qed
  have n: "length ?xs - 1 = Suc 1" by simp
  have "winners_count rand_max ?xs 1 [?xs ! k]
      = length (filter (\<lambda>rs. rs ! 0 mod 3 = k) (List.n_lists (length ?xs - 1) [0..<Suc rand_max]))"
    unfolding winners_count_def by (simp only: p)
  also have "\<dots> = length (filter (\<lambda>rs. rs ! 0 mod 3 = k) (List.n_lists (Suc 1) [0..<Suc rand_max]))"
    by (simp only: n)
  also have "\<dots> = length (filter (\<lambda>r. r mod 3 = k) [0..<Suc rand_max]) * length [0..<Suc rand_max] ^ 1"
    by (rule count_first_draw)
  also have "\<dots> = (Suc rand_max div 3 + (if k < Suc rand_max mod 3 then 1 else 0)) * Suc rand_max"
    using count_residue [OF assms, of "Suc rand_max"] by simp
  finally show ?thesis .
qed

lemma shuffle_reachable:
  assumes "length xs = L" and "distinct xs" and "1 \<le> N" and "N \<le> L" and "L \<le> Suc rand_max"
    and "length ys = N" and "distinct ys" and "set ys \<subseteq> set xs"
  shows "\<exists>rnd1 zs. (\<forall>i. rnd1 i \<le> rand_max) \<and> shuffle rnd1 xs (int L) = Some zs \<and> take N zs = ys"
proof -
  from assms have "\<exists>js. length js = length ys \<and> valid_swaps (length xs) 0 js
         \<and> take (length ys) (drop 0 (swaps 0 js xs)) = ys"
    by (intro swaps_surj) simp_all
  then obtain js where js: "length js = N" "valid_swaps L 0 js" "take N (swaps 0 js xs) = ys"
    using assms(1,6) by auto
  let ?rnd = "\<lambda>t. if t < length js then js ! t - t else 0"
  have "draws ?rnd L 0 N = js" using draws_of_swaps(1) [OF js(2)] js(1) by simp
  then have tk: "take N (swaps 0 (draws ?rnd L 0 (L - 1)) xs) = ys"
    using take_shuffle_first [OF assms(3,4), of ?rnd xs] js(3) by simp
  have sh: "shuffle ?rnd xs (int L) = Some (swaps 0 (draws ?rnd L 0 (L - 1)) xs)"
    using assms(1) by (simp add: shuffle_swaps)
  have le: "\<forall>i. ?rnd i \<le> rand_max"
    using draws_of_swaps(2) [OF js(2) assms(5)] by blast
  show ?thesis
  proof (intro exI conjI)
    show "\<forall>i. ?rnd i \<le> rand_max" by (rule le)
    show "shuffle ?rnd xs (int L) = Some (swaps 0 (draws ?rnd L 0 (L - 1)) xs)" by (rule sh)
    show "take N (swaps 0 (draws ?rnd L 0 (L - 1)) xs) = ys" by (rule tk)
  qed
qed

lemma shuffle_outcomes:
  assumes "length xs = L" and "distinct xs" and "1 \<le> N" and "N \<le> L"
  shows "\<forall>rnd1 rnd2 zs1 zs2.
            shuffle rnd1 xs (int L) = Some zs1 \<and> shuffle rnd2 xs (int L) = Some zs2 \<longrightarrow>
            (take N zs1 = take N zs2 \<longleftrightarrow> (\<forall>i<N. draw rnd1 L i = draw rnd2 L i))"
proof -
  show "\<forall>rnd1 rnd2 zs1 zs2.
            shuffle rnd1 xs (int L) = Some zs1 \<and> shuffle rnd2 xs (int L) = Some zs2 \<longrightarrow>
            (take N zs1 = take N zs2 \<longleftrightarrow> (\<forall>i<N. draw rnd1 L i = draw rnd2 L i))"
  proof (intro allI impI)
    fix rnd1 rnd2 :: "nat \<Rightarrow> nat" and zs1 zs2 :: "'a list"
    assume a: "shuffle rnd1 xs (int L) = Some zs1 \<and> shuffle rnd2 xs (int L) = Some zs2"
    let ?j1 = "draws rnd1 L 0 N" and ?j2 = "draws rnd2 L 0 N"
    have z1: "take N zs1 = take N (swaps 0 ?j1 xs)"
      using a assms(1) take_shuffle_first [OF assms(3,4), of rnd1 xs] by (simp add: shuffle_swaps)
    have z2: "take N zs2 = take N (swaps 0 ?j2 xs)"
      using a assms(1) take_shuffle_first [OF assms(3,4), of rnd2 xs] by (simp add: shuffle_swaps)
    have v1: "valid_swaps (length xs) 0 ?j1" and v2: "valid_swaps (length xs) 0 ?j2"
      using assms(1,4) by (simp_all add: valid_swaps_draws)
    have eq: "(?j1 = ?j2) = (\<forall>i<N. draw rnd1 L i = draw rnd2 L i)"
      by (simp add: nth_draws list_eq_iff_nth_eq)
    show "take N zs1 = take N zs2 \<longleftrightarrow> (\<forall>i<N. draw rnd1 L i = draw rnd2 L i)"
    proof
      assume t: "take N zs1 = take N zs2"
      have "\<forall>p. 0 \<le> p \<and> p < 0 + length ?j1 \<longrightarrow> swaps 0 ?j1 xs ! p = swaps 0 ?j2 xs ! p"
      proof (intro allI impI)
        fix p assume "0 \<le> p \<and> p < 0 + length ?j1"
        then have p: "p < N" by simp
        have "swaps 0 ?j1 xs ! p = take N (swaps 0 ?j1 xs) ! p" using p by simp
        also have "\<dots> = take N (swaps 0 ?j2 xs) ! p" using t z1 z2 by simp
        also have "\<dots> = swaps 0 ?j2 xs ! p" using p by simp
        finally show "swaps 0 ?j1 xs ! p = swaps 0 ?j2 xs ! p" .
      qed
      with assms(1,2,4) v1 v2 have "?j1 = ?j2" by (intro swaps_inj [of xs 0]) simp_all
      with eq show "\<forall>i<N. draw rnd1 L i = draw rnd2 L i" by simp
    next
      assume "\<forall>i<N. draw rnd1 L i = draw rnd2 L i"
      with eq have "?j1 = ?j2" by simp
      with z1 z2 show "take N zs1 = take N zs2" by simp
    qed
  qed
qed

text \<open>
  Claim C2, as amended. For a list of length \<open>L\<close> and \<open>1 \<le> N \<le> L\<close>: at each index
  \<open>i\<close> from 0 to \<open>L - 2\<close> the loop computes the swap index
  \<open>j = i + rand() mod (L - i)\<close>, which lies between \<open>i\<close> and \<open>L - 1\<close>, and exchanges the
  elements \<open>i\<close> and \<open>j\<close>; the result holds at each place the entry of the position
  that the same run puts there in the list of positions \<open>[0..<L]\<close>; when \<open>L\<close> is at
  most \<open>rand_max + 1\<close>, every sequence of \<open>N\<close> distinct positions comes first for some
  draws that are all at most \<open>rand_max\<close>; and two runs put the same positions first
  exactly when their swap indices agree at the indices below \<open>N\<close>. Over the values
  \<open>0 .. rand_max\<close> of \<^verbatim>\<open>rand()\<close> the swap index at \<open>i\<close> takes each of its values equally
  often when \<open>L - i\<close> divides \<open>rand_max + 1\<close>.
\<close>

theorem shuffle_fisher_yates:
  assumes "length xs = L" and "1 \<le> N" and "N \<le> L"
  shows "(\<forall>i<L - 1. swap_index (int i) (int L) (int (rnd i)) = Some (int (draw rnd L i))
            \<and> i \<le> draw rnd L i \<and> draw rnd L i < L) \<and>
         shuffle rnd xs (int L) = Some (swaps 0 (draws rnd L 0 (L - 1)) xs) \<and>
         (\<exists>qs. shuffle rnd [0..<L] (int L) = Some qs \<and>
            shuffle rnd xs (int L) = Some (map (\<lambda>p. xs ! p) qs)) \<and>
         (L \<le> Suc rand_max \<longrightarrow>
            (\<forall>ps. length ps = N \<and> distinct ps \<and> set ps \<subseteq> {0..<L} \<longrightarrow>
               (\<exists>rnd1 qs. (\<forall>i. rnd1 i \<le> rand_max) \<and>
                  shuffle rnd1 [0..<L] (int L) = Some qs \<and> take N qs = ps))) \<and>
         (\<forall>rnd1 rnd2 qs1 qs2.
            shuffle rnd1 [0..<L] (int L) = Some qs1 \<and> shuffle rnd2 [0..<L] (int L) = Some qs2 \<longrightarrow>
            (take N qs1 = take N qs2 \<longleftrightarrow> (\<forall>i<N. draw rnd1 L i = draw rnd2 L i))) \<and>
         (\<forall>i j. i < L - 1 \<and> i \<le> j \<and> j < L \<and> (L - i) dvd Suc rand_max \<longrightarrow>
            draws_to rand_max (int i) (int L) (int j) = Suc rand_max div (L - i))"
proof (intro conjI)
  show "\<forall>i<L - 1. swap_index (int i) (int L) (int (rnd i)) = Some (int (draw rnd L i))
            \<and> i \<le> draw rnd L i \<and> draw rnd L i < L"
  proof (intro allI impI)
    fix i assume "i < L - 1"
    then have "i < L" by simp
    then show "swap_index (int i) (int L) (int (rnd i)) = Some (int (draw rnd L i))
            \<and> i \<le> draw rnd L i \<and> draw rnd L i < L"
      using swap_index_draw [of i L "rnd i"] draw_bounds [of i L rnd] by (simp add: draw_def)
  qed
next
  show "shuffle rnd xs (int L) = Some (swaps 0 (draws rnd L 0 (L - 1)) xs)"
    using assms(1) by (simp add: shuffle_swaps)
next
  let ?js = "draws rnd L 0 (L - 1)"
  have v: "valid_swaps (length xs) 0 ?js" using assms(1) by (simp add: valid_swaps_draws)
  have "shuffle rnd [0..<L] (int L) = Some (swaps 0 ?js [0..<L])"
    by (intro shuffle_swaps) simp
  moreover have "shuffle rnd xs (int L) = Some (map (\<lambda>p. xs ! p) (swaps 0 ?js [0..<L]))"
    using assms(1) swaps_indices [OF v] by (simp add: shuffle_swaps)
  ultimately show "\<exists>qs. shuffle rnd [0..<L] (int L) = Some qs \<and>
            shuffle rnd xs (int L) = Some (map (\<lambda>p. xs ! p) qs)"
    by blast
next
  have l: "length [0..<L] = L" and d: "distinct [0..<L]" by simp_all
  show "L \<le> Suc rand_max \<longrightarrow>
            (\<forall>ps. length ps = N \<and> distinct ps \<and> set ps \<subseteq> {0..<L} \<longrightarrow>
               (\<exists>rnd1 qs. (\<forall>i. rnd1 i \<le> rand_max) \<and>
                  shuffle rnd1 [0..<L] (int L) = Some qs \<and> take N qs = ps))"
  proof (intro impI allI)
    fix ps assume b: "L \<le> Suc rand_max"
      and ps: "length ps = N \<and> distinct ps \<and> set ps \<subseteq> {0..<L}"
    then have "length ps = N" and "distinct ps" and "set ps \<subseteq> set [0..<L]" by simp_all
    with l d assms(2,3) b
    show "\<exists>rnd1 qs. (\<forall>i. rnd1 i \<le> rand_max) \<and>
                  shuffle rnd1 [0..<L] (int L) = Some qs \<and> take N qs = ps"
      by (rule shuffle_reachable)
  qed
next
  have l: "length [0..<L] = L" and d: "distinct [0..<L]" by simp_all
  from shuffle_outcomes [OF l d assms(2,3)]
  show "\<forall>rnd1 rnd2 qs1 qs2.
            shuffle rnd1 [0..<L] (int L) = Some qs1 \<and> shuffle rnd2 [0..<L] (int L) = Some qs2 \<longrightarrow>
            (take N qs1 = take N qs2 \<longleftrightarrow> (\<forall>i<N. draw rnd1 L i = draw rnd2 L i))" .
next
  show "\<forall>i j. i < L - 1 \<and> i \<le> j \<and> j < L \<and> (L - i) dvd Suc rand_max \<longrightarrow>
            draws_to rand_max (int i) (int L) (int j) = Suc rand_max div (L - i)"
  proof (intro allI impI)
    fix i j assume a: "i < L - 1 \<and> i \<le> j \<and> j < L \<and> (L - i) dvd Suc rand_max"
    then have "i < L" by simp
    with a have "draws_to rand_max (int i) (int L) (int j)
       = Suc rand_max div (L - i) + (if j - i < Suc rand_max mod (L - i) then 1 else 0)"
      by (intro draws_to_count) simp_all
    moreover from a have "Suc rand_max mod (L - i) = 0" by (simp add: dvd_imp_mod_0)
    ultimately show "draws_to rand_max (int i) (int L) (int j) = Suc rand_max div (L - i)" by simp
  qed
qed

theorem shuffle_fisher_yates_witness:
  "length [''alice'', ''bob'', ''carol''] = 3 \<and> (1::nat) \<le> 2 \<and> (2::nat) \<le> 3 \<and>
   swap_index (int 0) (int 3) (int 5) = Some (int 2) \<and>
   shuffle (\<lambda>i. if i = 0 then 5 else 7) [''alice'', ''bob'', ''carol''] (int 3)
     = Some [''carol'', ''alice'', ''bob''] \<and>
   (3::nat) \<le> Suc 7 \<and>
   (\<exists>rnd1 qs. (\<forall>i. rnd1 i \<le> 7) \<and> shuffle rnd1 [0..<3] (int 3) = Some qs \<and> take 2 qs = [1, 0]) \<and>
   (3 - 1) dvd Suc 7 \<and>
   draws_to 7 (int 1) (int 3) (int 1) = 4 \<and> draws_to 7 (int 1) (int 3) (int 2) = 4"
proof -
  let ?xs = "[''alice'', ''bob'', ''carol'']"
  let ?rnd = "\<lambda>i. if i = 0 then 5 else (7::nat)"
  have h1: "length ?xs = 3" and h3: "(1::nat) \<le> 2" and h4: "(2::nat) \<le> 3"
    by simp_all
  note t = shuffle_fisher_yates [where xs = ?xs and L = 3 and N = 2 and rnd = ?rnd and rand_max = 7,
      OF h1 h3 h4]
  note t1 = t [THEN conjunct1, rule_format]
    and t2 = t [THEN conjunct2, THEN conjunct1]
    and t4 = t [THEN conjunct2, THEN conjunct2, THEN conjunct2, THEN conjunct1, rule_format]
    and t6 = t [THEN conjunct2, THEN conjunct2, THEN conjunct2, THEN conjunct2, THEN conjunct2, rule_format]
  have d0: "draw ?rnd 3 0 = 2" and d1: "draw ?rnd 3 1 = 2" by (simp_all add: draw_def)
  have "(0::nat) < 3 - 1" by simp
  from t1 [OF this] d0 have a: "swap_index (int 0) (int 3) (int 5) = Some (int 2)" by simp
  have e: "swaps 0 (draws ?rnd 3 0 (3 - 1)) ?xs = [''carol'', ''alice'', ''bob'']"
    using d0 d1 by (simp add: numeral_2_eq_2)
  from t2 e have b: "shuffle ?rnd ?xs (int 3) = Some [''carol'', ''alice'', ''bob'']" by simp
  have le: "(3::nat) \<le> Suc 7" by simp
  have "length [1, 0 :: nat] = 2 \<and> distinct [1, 0 :: nat] \<and> set [1, 0 :: nat] \<subseteq> {0..<3}"
    by simp
  from t4 [OF le this]
  have c: "\<exists>rnd1 qs. (\<forall>i. rnd1 i \<le> 7) \<and> shuffle rnd1 [0..<3] (int 3) = Some qs \<and> take 2 qs = [1, 0]" .
  have dv: "((3::nat) - 1) dvd Suc 7" by simp
  have "(1::nat) < 3 - 1 \<and> (1::nat) \<le> 1 \<and> (1::nat) < 3 \<and> ((3::nat) - 1) dvd Suc 7" by simp
  from t6 [OF this] have f: "draws_to 7 (int 1) (int 3) (int 1) = 4" by simp
  have "(1::nat) < 3 - 1 \<and> (1::nat) \<le> 2 \<and> (2::nat) < 3 \<and> ((3::nat) - 1) dvd Suc 7" by simp
  from t6 [OF this] have g: "draws_to 7 (int 1) (int 3) (int 2) = 4" by simp
  from h1 h3 h4 a b le c dv f g show ?thesis by blast
qed

text \<open>
  The claim as stated fails: with \<open>RAND_MAX = 2147483647\<close> and three participants,
  715827883 values of \<^verbatim>\<open>rand()\<close> give the swap index 0 at the first iteration and
  715827882 give the swap index 2, so that over all pairs of values of the two calls the
  first participant is the single winner more often than the third.
\<close>

theorem shuffle_modulo_bias:
  "draws_to 2147483647 0 3 0 = 715827883 \<and> draws_to 2147483647 0 3 2 = 715827882 \<and>
   winners_count 2147483647 [''alice'', ''bob'', ''carol''] 1 [''alice''] = 715827883 * 2147483648 \<and>
   winners_count 2147483647 [''alice'', ''bob'', ''carol''] 1 [''carol''] = 715827882 * 2147483648"
proof -
  have a: "draws_to 2147483647 (int 0) (int 3) (int 0) = 715827883"
    by (subst draws_to_count) simp_all
  have b: "draws_to 2147483647 (int 0) (int 3) (int 2) = 715827882"
    by (subst draws_to_count) simp_all
  have c: "winners_count 2147483647 [''alice'', ''bob'', ''carol''] 1 [[''alice'', ''bob'', ''carol''] ! 0]
      = 715827883 * 2147483648"
    by (subst winners_count_three) simp_all
  have d: "winners_count 2147483647 [''alice'', ''bob'', ''carol''] 1 [[''alice'', ''bob'', ''carol''] ! 2]
      = 715827882 * 2147483648"
    by (subst winners_count_three) simp_all
  from a b c d show ?thesis by simp
qed

end
